theory Spec2Isabelle
  imports Main
begin

section \<open>JavaScript values, strings and errors\<close>

text \<open>
  A JavaScript string is modelled as a \<^typ>\<open>string\<close>: the list of its code units, each
  below 256 (the Latin-1 range). Every pattern of the two drivers only names ASCII
  characters, so the code units above 255 behave like any other character that is neither a
  separator, a dot, a colon nor a letter.
\<close>

abbreviation (input) bsl :: char where
  "bsl \<equiv> CHR 0x5C"

abbreviation (input) dquote :: char where
  "dquote \<equiv> CHR 0x22"

text \<open>
  The values a caller can pass where the TypeScript signature asks for a string or a
  \<open>PathInfo\<close>. \<open>JObj r d b\<close> is an object whose property \<open>root\<close> has the value \<open>r\<close>
  (\<open>JUndefined\<close> when absent) and whose properties \<open>dir\<close> and \<open>base\<close> are strings, or absent,
  as \<open>PathInfo\<close> declares them.
\<close>

datatype jsval =
    JUndefined
  | JNull
  | JBool bool
  | JNum int
  | JStr string
  | JObj jsval "string option" "string option"

text \<open>
  Both kinds of failure are a JavaScript \<open>TypeError\<close>. \<open>InvalidArgument msg\<close> is the one
  the drivers raise themselves with \<open>throw new TypeError(msg)\<close>; \<open>NullPropertyRead p\<close> is the
  one the language raises when property \<open>p\<close> of \<open>null\<close> or \<open>undefined\<close> is read.
\<close>

datatype error =
    InvalidArgument string
  | NullPropertyRead string

fun typeof :: "jsval \<Rightarrow> string" where
  "typeof JUndefined = ''undefined''"
| "typeof JNull = ''object''"
| "typeof (JBool b) = ''boolean''"
| "typeof (JNum n) = ''number''"
| "typeof (JStr s) = ''string''"
| "typeof (JObj r d b) = ''object''"

definition isString :: "jsval \<Rightarrow> bool" where
  "isString v = (typeof v = ''string'')"

definition isObject :: "jsval \<Rightarrow> bool" where
  "isObject v = (typeof v = ''object'')"

text \<open>JavaScript truthiness, as \<open>!v\<close> and \<open>v || w\<close> use it.\<close>

fun truthy :: "jsval \<Rightarrow> bool" where
  "truthy JUndefined = False"
| "truthy JNull = False"
| "truthy (JBool b) = b"
| "truthy (JNum n) = (n \<noteq> 0)"
| "truthy (JStr s) = (s \<noteq> [])"
| "truthy (JObj r d b) = True"

text \<open>\<open>s.toLowerCase()\<close> on code units below 256.\<close>

definition lower_char :: "char \<Rightarrow> char" where
  "lower_char c =
     (let n = (of_char c :: nat)
      in if (65 \<le> n \<and> n \<le> 90) \<or> (192 \<le> n \<and> n \<le> 222 \<and> n \<noteq> 215)
         then char_of (n + 32) else c)"

definition toLowerCase :: "string \<Rightarrow> string" where
  "toLowerCase s = map lower_char s"

text \<open>\<open>s.slice(b, e)\<close> and \<open>s.substr(b, n)\<close>; negative indices count from the end.\<close>

definition clamp_index :: "nat \<Rightarrow> int \<Rightarrow> nat" where
  "clamp_index len i = (if i < 0 then nat (max (int len + i) 0) else min (nat i) len)"

definition slice :: "'a list \<Rightarrow> int \<Rightarrow> int \<Rightarrow> 'a list" where
  "slice s b e =
     (let from = clamp_index (length s) b; to = clamp_index (length s) e
      in take (to - from) (drop from s))"

definition slice_from :: "'a list \<Rightarrow> int \<Rightarrow> 'a list" where
  "slice_from s b = drop (clamp_index (length s) b) s"

definition substr :: "string \<Rightarrow> int \<Rightarrow> int \<Rightarrow> string" where
  "substr s b n = take (nat (max n 0)) (drop (clamp_index (length s) b) s)"

text \<open>\<open>s[i]\<close>: \<open>undefined\<close> out of range.\<close>

definition char_at :: "string \<Rightarrow> nat \<Rightarrow> char option" where
  "char_at s i = (if i < length s then Some (s ! i) else None)"

text \<open>\<open>arr.join(sep)\<close>.\<close>

fun join_with :: "string \<Rightarrow> string list \<Rightarrow> string" where
  "join_with sep [] = []"
| "join_with sep [x] = x"
| "join_with sep (x # y # ys) = x @ sep @ join_with sep (y # ys)"

text \<open>\<open>s.split(sep)\<close> for a separator string of one character.\<close>

fun split_chr :: "char \<Rightarrow> string \<Rightarrow> string list" where
  "split_chr sep [] = [[]]"
| "split_chr sep (c # cs) =
     (if c = sep then [] # split_chr sep cs
      else (case split_chr sep cs of
              seg # segs \<Rightarrow> (c # seg) # segs
            | [] \<Rightarrow> [[c]]))"

section \<open>Regular expressions\<close>

text \<open>
  The patterns of the drivers are kept as data and run by a backtracking matcher that
  follows ECMAScript: alternatives are tried left to right, a greedy quantifier tries the
  longest run first and a lazy one the shortest, and a search tries each start position
  from the left. Quantifiers occur in the drivers' patterns on a single character class
  (\<open>Rep\<close>) and, as \<open>?\<close>, on a group (\<open>Opt\<close>).
\<close>

datatype citem = C char | R char char

datatype cclass = Any | Set "citem list" | NotSet "citem list"

datatype regex =
    Chr cclass
  | Eps
  | Bol
  | Eol
  | Seq regex regex
  | Alt regex regex
  | Rep cclass nat "nat option" bool
  | Opt regex
  | Group nat regex

fun in_item :: "char \<Rightarrow> citem \<Rightarrow> bool" where
  "in_item c (C d) = (c = d)"
| "in_item c (R lo hi) = ((of_char lo :: nat) \<le> of_char c \<and> (of_char c :: nat) \<le> of_char hi)"

fun in_class :: "cclass \<Rightarrow> char \<Rightarrow> bool" where
  "in_class Any c = True"
| "in_class (Set items) c = (\<exists>i \<in> set items. in_item c i)"
| "in_class (NotSet items) c = (\<not> (\<exists>i \<in> set items. in_item c i))"

fun first_some :: "('a \<Rightarrow> 'b option) \<Rightarrow> 'a list \<Rightarrow> 'b option" where
  "first_some f [] = None"
| "first_some f (x # xs) = (case f x of Some r \<Rightarrow> Some r | None \<Rightarrow> first_some f xs)"

type_synonym captures = "string option list"

text \<open>
  \<open>run n r s c k\<close> matches \<open>r\<close> at the front of the remaining input \<open>s\<close> (of an input of
  length \<open>n\<close>) with the captures \<open>c\<close> so far, and hands what is left to the continuation
  \<open>k\<close>; a failing continuation makes the matcher backtrack. A quantified group that is
  taken must not match the empty string. No quantified group is entered twice, so the reset
  of its captures at the start of an iteration is the identity.
\<close>

fun run :: "nat \<Rightarrow> regex \<Rightarrow> string \<Rightarrow> captures \<Rightarrow> (string \<Rightarrow> captures \<Rightarrow> 'r option) \<Rightarrow> 'r option"
  where
  "run n (Chr cl) s c k =
     (case s of [] \<Rightarrow> None | x # s' \<Rightarrow> if in_class cl x then k s' c else None)"
| "run n Eps s c k = k s c"
| "run n Bol s c k = (if length s = n then k s c else None)"
| "run n Eol s c k = (if s = [] then k s c else None)"
| "run n (Seq r1 r2) s c k = run n r1 s c (\<lambda>s' c'. run n r2 s' c' k)"
| "run n (Alt r1 r2) s c k =
     (case run n r1 s c k of Some x \<Rightarrow> Some x | None \<Rightarrow> run n r2 s c k)"
| "run n (Rep cl lo hi greedy) s c k =
     (let avail = length (takeWhile (in_class cl) s);
          top = (case hi of None \<Rightarrow> avail | Some h \<Rightarrow> min h avail);
          counts = [lo ..< Suc top]
      in first_some (\<lambda>j. k (drop j s) c) (if greedy then rev counts else counts))"
| "run n (Opt r) s c k =
     (case run n r s c (\<lambda>s' c'. if length s' = length s then None else k s' c') of
        Some x \<Rightarrow> Some x
      | None \<Rightarrow> k s c)"
| "run n (Group i r) s c k =
     run n r s c (\<lambda>s' c'. k s' (c'[i := Some (take (length s - length s') s)]))"

record pattern =
  body :: regex
  groups :: nat

text \<open>
  \<open>match_at p inp i\<close>: the match of \<open>p\<close> that starts at index \<open>i\<close>, as its end index and
  its captures, element 0 being the whole match.
\<close>

definition match_at :: "pattern \<Rightarrow> string \<Rightarrow> nat \<Rightarrow> (nat \<times> captures) option" where
  "match_at p inp i =
     run (length inp) (body p) (drop i inp) (replicate (Suc (groups p)) None)
       (\<lambda>s' c. Some (length inp - length s',
                      c[0 := Some (take (length inp - length s' - i) (drop i inp))]))"

text \<open>\<open>re.exec(inp)\<close> for a pattern without flags: start index, end index, captures.\<close>

definition exec :: "pattern \<Rightarrow> string \<Rightarrow> (nat \<times> nat \<times> captures) option" where
  "exec p inp =
     first_some (\<lambda>i. map_option (\<lambda>(e, c). (i, e, c)) (match_at p inp i))
       [0 ..< Suc (length inp)]"

definition test :: "pattern \<Rightarrow> string \<Rightarrow> bool" where
  "test p inp = (exec p inp \<noteq> None)"

text \<open>\<open>s.replace(re, repl)\<close> for a pattern without flags and a literal replacement.\<close>

definition replace_first :: "pattern \<Rightarrow> string \<Rightarrow> string \<Rightarrow> string" where
  "replace_first p repl s =
     (case exec p s of
        None \<Rightarrow> s
      | Some (i, e, c) \<Rightarrow> take i s @ repl @ drop e s)"

text \<open>A match never ends before it starts: what the continuation receives is a suffix.\<close>

lemma first_some_SomeD:
  "first_some f xs = Some y \<Longrightarrow> \<exists>x \<in> set xs. f x = Some y"
  by (induction xs) (auto split: option.splits)

lemma run_suffix:
  "run n r s c k = Some x \<Longrightarrow> \<exists>t s' c'. s = t @ s' \<and> k s' c' = Some x"
proof (induction r arbitrary: s c k)
  case (Chr cl)
  then show ?case
  proof (cases s)
    case Nil
    with Chr show ?thesis by simp
  next
    case (Cons a list)
    with Chr have "k list c = Some x" by (simp split: if_splits)
    with Cons have "s = [a] @ list \<and> k list c = Some x" by simp
    then show ?thesis by blast
  qed
next
  case (Seq r1 r2)
  from Seq.prems obtain t1 s1 c1 where a: "s = t1 @ s1" "run n r2 s1 c1 k = Some x"
    using Seq.IH(1) [of s c "\<lambda>s' c'. run n r2 s' c' k"] by auto
  from Seq.IH(2) [OF a(2)] obtain t2 s2 c2 where "s1 = t2 @ s2" "k s2 c2 = Some x"
    by blast
  with a(1) have "s = (t1 @ t2) @ s2 \<and> k s2 c2 = Some x" by simp
  then show ?case by blast
next
  case (Alt r1 r2)
  then show ?case
    by (auto split: option.splits)
next
  case (Rep cl lo hi greedy)
  then obtain xs where "first_some (\<lambda>j. k (drop j s) c) xs = Some x"
    unfolding run.simps Let_def by blast
  then obtain j where "k (drop j s) c = Some x"
    by (blast dest: first_some_SomeD)
  then have "s = take j s @ drop j s \<and> k (drop j s) c = Some x" by simp
  then show ?case by blast
next
  case (Opt r)
  show ?case
  proof (cases "run n r s c (\<lambda>s' c'. if length s' = length s then None else k s' c')")
    case None
    with Opt.prems have "k s c = Some x" by simp
    then have "s = [] @ s \<and> k s c = Some x" by simp
    then show ?thesis by blast
  next
    case (Some y)
    with Opt.prems have "y = x" by simp
    with Some Opt.IH [of s c "\<lambda>s' c'. if length s' = length s then None else k s' c'" ]
    show ?thesis by (auto split: if_splits)
  qed
next
  case (Group i r)
  from Group.IH [OF Group.prems [simplified]] show ?case by blast
qed (force split: if_splits)+

lemma match_at_bounds:
  assumes "match_at p inp i = Some (e, c)" and "i \<le> length inp"
  shows "i \<le> e \<and> e \<le> length inp"
proof -
  from assms(1) obtain t s' where "drop i inp = t @ s'" "e = length inp - length s'"
    unfolding match_at_def by (auto dest!: run_suffix)
  moreover from this(1) have "length inp - i = length t + length s'"
    by (metis length_append length_drop)
  ultimately show ?thesis using assms(2) by auto
qed

text \<open>
  \<open>search_from p inp i\<close>: the leftmost match of \<open>p\<close> that starts at index \<open>i\<close> or later, as
  \<open>exec\<close> finds it for a pattern with the flag \<open>g\<close> and \<open>lastIndex = i\<close>.
\<close>

definition search_from :: "pattern \<Rightarrow> string \<Rightarrow> nat \<Rightarrow> (nat \<times> nat \<times> captures) option" where
  "search_from p inp i =
     first_some (\<lambda>j. map_option (\<lambda>(e, c). (j, e, c)) (match_at p inp j))
       [i ..< Suc (length inp)]"

lemma search_from_bounds:
  assumes "search_from p inp i = Some (j, e, c)"
  shows "i \<le> j \<and> j \<le> e \<and> e \<le> length inp"
proof -
  from assms obtain j' where j': "j' \<in> set [i ..< Suc (length inp)]"
    "map_option (\<lambda>(e, c). (j', e, c)) (match_at p inp j') = Some (j, e, c)"
    unfolding search_from_def by (blast dest: first_some_SomeD)
  then have "j' = j" "match_at p inp j = Some (e, c)" by auto
  with j'(1) match_at_bounds [of p inp j e c] show ?thesis by auto
qed

text \<open>
  \<open>s.replace(re, repl)\<close> for a pattern with the flag \<open>g\<close> and a literal replacement: every
  match from the left, the search resuming at the end of the last match, one further
  after an empty match. \<open>pos\<close> is the index up to which the input has been copied.
\<close>

function replace_all_from :: "pattern \<Rightarrow> string \<Rightarrow> string \<Rightarrow> nat \<Rightarrow> nat \<Rightarrow> string" where
  "replace_all_from p repl s pos i =
     (case search_from p s i of
        None \<Rightarrow> drop pos s
      | Some (j, e, c) \<Rightarrow>
          take (j - pos) (drop pos s) @ repl
            @ replace_all_from p repl s e (if e = j then e + 1 else e))"
  by pat_completeness auto
termination
  by (relation "measure (\<lambda>(p, repl, s, pos, i). Suc (length s) - i)")
     (auto dest!: search_from_bounds)

definition replace_all :: "pattern \<Rightarrow> string \<Rightarrow> string \<Rightarrow> string" where
  "replace_all p repl s = replace_all_from p repl s 0 0"

text \<open>
  \<open>s.split(re)\<close> for a pattern without groups: \<open>p\<close> is where the current piece starts and
  \<open>q\<close> where a separator is tried next; a separator that ends at \<open>p\<close> is empty and is
  stepped over.
\<close>

function split_loop :: "pattern \<Rightarrow> string \<Rightarrow> nat \<Rightarrow> nat \<Rightarrow> string list" where
  "split_loop re s p q =
     (if q < length s then
        (case match_at re s q of
           None \<Rightarrow> split_loop re s p (q + 1)
         | Some (e, c) \<Rightarrow>
             if e = p then split_loop re s p (q + 1)
             else take (q - p) (drop p s) # split_loop re s e e)
      else [drop p s])"
  by pat_completeness auto
termination
  by (relation "measures [\<lambda>(re, s, p, q). length s - q, \<lambda>(re, s, p, q). if p = q then 0 else 1]")
     (auto dest!: match_at_bounds)

definition split_re :: "pattern \<Rightarrow> string \<Rightarrow> string list" where
  "split_re re s =
     (if s = [] then (if match_at re s 0 = None then [s] else [])
      else split_loop re s 0 0)"

section \<open>The segment normalizer and the trim helper\<close>

text \<open>
  \<open>normalizeArray\<close> and \<open>trimArray\<close> occur twice in the source, once per driver, with the
  same text. The loop of \<open>normalizeArray\<close> carries the array \<open>res\<close>, whose last element is
  the one \<open>pop\<close> removes.
\<close>

fun normalizeArray_loop :: "string list \<Rightarrow> bool \<Rightarrow> string list \<Rightarrow> string list" where
  "normalizeArray_loop [] allowAboveRoot res = res"
| "normalizeArray_loop (p # parts) allowAboveRoot res =
     (if p = [] \<or> p = ''.'' then normalizeArray_loop parts allowAboveRoot res
      else if p = ''..'' then
        (if res \<noteq> [] \<and> last res \<noteq> ''..''
         then normalizeArray_loop parts allowAboveRoot (butlast res)
         else if allowAboveRoot
         then normalizeArray_loop parts allowAboveRoot (res @ [''..''])
         else normalizeArray_loop parts allowAboveRoot res)
      else normalizeArray_loop parts allowAboveRoot (res @ [p]))"

definition normalizeArray :: "string list \<Rightarrow> bool \<Rightarrow> string list" where
  "normalizeArray parts allowAboveRoot = normalizeArray_loop parts allowAboveRoot []"

text \<open>
  \<open>trimArray\<close>: \<open>start\<close> is the index of the first non-empty element (the length when
  there is none) and \<open>end\<close> the index of the last one (\<open>-1\<close> when there is none).
\<close>

definition trimArray :: "string list \<Rightarrow> string list" where
  "trimArray arr =
     (let lastIndex = int (length arr) - 1;
          start = int (length (takeWhile (\<lambda>x. x = []) arr));
          end = lastIndex - int (length (takeWhile (\<lambda>x. x = []) (rev arr)))
      in if start = 0 \<and> end = lastIndex then arr
         else if start > end then []
         else slice arr start (end + 1))"

text \<open>What string concatenation and \<open>test\<close> make of a capture that may be \<open>undefined\<close>.\<close>

definition to_string :: "string option \<Rightarrow> string" where
  "to_string v = (case v of None \<Rightarrow> ''undefined'' | Some s \<Rightarrow> s)"

text \<open>\<open>v || ""\<close> for a capture.\<close>

definition or_empty :: "string option \<Rightarrow> string" where
  "or_empty v = (case v of None \<Rightarrow> [] | Some s \<Rightarrow> s)"

text \<open>The string a value holds; read only where \<open>isString\<close> has held.\<close>

fun the_str :: "jsval \<Rightarrow> string" where
  "the_str (JStr s) = s"
| "the_str v = []"

fun seqs :: "regex list \<Rightarrow> regex" where
  "seqs [] = Eps"
| "seqs [r] = r"
| "seqs (r # rs) = Seq r (seqs rs)"

abbreviation (input) Lit :: "char \<Rightarrow> regex" where
  "Lit c \<equiv> Chr (Set [C c])"

text \<open>
  The state of a driver: \<open>cwd\<close> and, for the Windows driver, \<open>env\<close>. The decomposed path
  follows the data model of the specification; \<open>root\<close> is the first captured component as
  it is, which JavaScript leaves \<open>undefined\<close> when its group took no part in the match.
\<close>

record driver =
  cwd :: string
  env :: "string \<rightharpoonup> string"

record pathInfo =
  root :: "string option"
  dir :: string
  base :: string
  ext :: string
  name :: string

section \<open>The Windows driver\<close>

text \<open>The classes \<open>[\\\/]\<close> and \<open>[^\\\/]\<close>.\<close>

definition sep :: cclass where
  "sep = Set [C bsl, C (CHR ''/'')]"

definition nonsep :: cclass where
  "nonsep = NotSet [C bsl, C (CHR ''/'')]"

text \<open>\<open>/^([a-zA-Z]:|[\\\/]{2}[^\\\/]+[\\\/]+[^\\\/]+)?([\\\/])?([\s\S]*?)$/\<close>\<close>

definition splitDeviceRe :: pattern where
  "splitDeviceRe = \<lparr>body = seqs
     [Bol,
      Opt (Group 1 (Alt
        (Seq (Chr (Set [R (CHR ''a'') (CHR ''z''), R (CHR ''A'') (CHR ''Z'')])) (Lit (CHR '':'')))
        (seqs [Rep sep 2 (Some 2) True, Rep nonsep 1 None True,
               Rep sep 1 None True, Rep nonsep 1 None True]))),
      Opt (Group 2 (Chr sep)),
      Group 3 (Rep Any 0 None False),
      Eol], groups = 3\<rparr>"

text \<open>\<open>/^([\s\S]*?)((?:\.{1,2}|[^\\\/]+?|)(\.[^.\/\\]*|))(?:[\\\/]*)$/\<close>\<close>

definition splitTailRe :: pattern where
  "splitTailRe = \<lparr>body = seqs
     [Bol,
      Group 1 (Rep Any 0 None False),
      Group 2 (Seq
        (Alt (Rep (Set [C (CHR ''.'')]) 1 (Some 2) True) (Alt (Rep nonsep 1 None False) Eps))
        (Group 3 (Alt
           (Seq (Lit (CHR ''.'')) (Rep (NotSet [C (CHR ''.''), C (CHR ''/''), C bsl]) 0 None True))
           Eps))),
      Rep sep 0 None True,
      Eol], groups = 3\<rparr>"

text \<open>\<open>/[\\\/]$/\<close>, \<open>/[\\\/]+/\<close>, \<open>/^[\\\/]+/\<close>, \<open>/^[\\\/]{2}[^\\\/]/\<close> and \<open>/^[\\\/]{2,}/\<close>.\<close>

definition endSepRe :: pattern where
  "endSepRe = \<lparr>body = seqs [Chr sep, Eol], groups = 0\<rparr>"

definition sepsRe :: pattern where
  "sepsRe = \<lparr>body = Rep sep 1 None True, groups = 0\<rparr>"

definition leadSepsRe :: pattern where
  "leadSepsRe = \<lparr>body = seqs [Bol, Rep sep 1 None True], groups = 0\<rparr>"

definition uncStartRe :: pattern where
  "uncStartRe = \<lparr>body = seqs [Bol, Rep sep 2 (Some 2) True, Chr nonsep], groups = 0\<rparr>"

definition leadTwoSepsRe :: pattern where
  "leadTwoSepsRe = \<lparr>body = seqs [Bol, Rep sep 2 None True], groups = 0\<rparr>"

text \<open>
  \<open>splitPath\<close>: reading an element of the result of \<open>exec\<close> fails when \<open>exec\<close> has returned
  \<open>null\<close>. The components \<open>dir\<close>, \<open>basename\<close> and \<open>ext\<close> are the captures as they are.
\<close>

definition win32_splitPath :: "string \<Rightarrow> error + string option list" where
  "win32_splitPath filename =
     (case exec splitDeviceRe filename of
        None \<Rightarrow> Inl (NullPropertyRead ''1'')
      | Some (i, e, result) \<Rightarrow>
          let dev = or_empty (result ! 1) @ or_empty (result ! 2);
              tl = or_empty (result ! 3)
          in (case exec splitTailRe tl of
                None \<Rightarrow> Inl (NullPropertyRead ''1'')
              | Some (i2, e2, result2) \<Rightarrow>
                  Inr [Some dev, result2 ! 1, result2 ! 2, result2 ! 3]))"

record pathStat =
  device :: string
  tail :: "string option"
  isUnc :: bool
  isAbsolute :: bool

definition statPath :: "string \<Rightarrow> error + pathStat" where
  "statPath path =
     (case exec splitDeviceRe path of
        None \<Rightarrow> Inl (NullPropertyRead ''1'')
      | Some (i, e, result) \<Rightarrow>
          let dev = or_empty (result ! 1);
              unc = (dev \<noteq> [] \<and> char_at dev 1 \<noteq> Some (CHR '':''))
          in Inr \<lparr>device = dev, tail = result ! 3, isUnc = unc,
                  isAbsolute = (unc \<or> or_empty (result ! 2) \<noteq> [])\<rparr>)"

definition normalizeUNCRoot :: "string \<Rightarrow> string" where
  "normalizeUNCRoot dev =
     [bsl, bsl] @ replace_all sepsRe [bsl] (replace_first leadSepsRe [] dev)"

text \<open>
  The loop of \<open>resolve\<close>. One step takes the candidate path and the four loop variables
  and returns them updated, with whether the loop breaks. \<open>isUnc\<close> is assigned before the
  test that skips a path on another device.
\<close>

record resolveState =
  resolvedDevice :: string
  resolvedTail :: string
  resolvedAbsolute :: bool
  resolvedIsUnc :: bool

definition win32_resolve_step :: "jsval \<Rightarrow> resolveState \<Rightarrow> error + (resolveState \<times> bool)" where
  "win32_resolve_step path st =
     (if \<not> isString path then Inl (InvalidArgument ''Arguments to path.resolve must be strings'')
      else if the_str path = [] then Inr (st, False)
      else
        (case statPath (the_str path) of
           Inl err \<Rightarrow> Inl err
         | Inr result \<Rightarrow>
             let st1 = st\<lparr>resolvedIsUnc := isUnc result\<rparr>
             in if device result \<noteq> [] \<and> resolvedDevice st1 \<noteq> []
                   \<and> toLowerCase (device result) \<noteq> toLowerCase (resolvedDevice st1)
                then Inr (st1, False)
                else
                  let st2 = (if resolvedDevice st1 = []
                             then st1\<lparr>resolvedDevice := device result\<rparr> else st1);
                      st3 = (if \<not> resolvedAbsolute st2
                             then st2\<lparr>resolvedTail :=
                                        to_string (tail result) @ [bsl] @ resolvedTail st2,
                                      resolvedAbsolute := isAbsolute result\<rparr>
                             else st2)
                  in Inr (st3, resolvedDevice st3 \<noteq> [] \<and> resolvedAbsolute st3)))"

text \<open>The candidate at index \<open>-1\<close>: \<open>cwd\<close>, or the working directory of the resolved drive.\<close>

definition win32_resolve_fallback :: "driver \<Rightarrow> resolveState \<Rightarrow> jsval" where
  "win32_resolve_fallback d st =
     (if resolvedDevice st = [] then JStr (cwd d)
      else
        (case env d (''='' @ resolvedDevice st) of
           None \<Rightarrow> JStr (resolvedDevice st @ [bsl])
         | Some path \<Rightarrow>
             if path = [] \<or> toLowerCase (substr path 0 3) \<noteq> toLowerCase (resolvedDevice st) @ [bsl]
             then JStr (resolvedDevice st @ [bsl])
             else JStr path))"

text \<open>The arguments are taken from the last to the first: the list is \<open>rev paths\<close>.\<close>

fun win32_resolve_loop :: "driver \<Rightarrow> jsval list \<Rightarrow> resolveState \<Rightarrow> error + resolveState" where
  "win32_resolve_loop d [] st =
     (case win32_resolve_step (win32_resolve_fallback d st) st of
        Inl err \<Rightarrow> Inl err
      | Inr (st', brk) \<Rightarrow> Inr st')"
| "win32_resolve_loop d (path # paths) st =
     (case win32_resolve_step path st of
        Inl err \<Rightarrow> Inl err
      | Inr (st', brk) \<Rightarrow> if brk then Inr st' else win32_resolve_loop d paths st')"

definition win32_resolve :: "driver \<Rightarrow> jsval list \<Rightarrow> error + string" where
  "win32_resolve d paths =
     (case win32_resolve_loop d (rev paths)
             \<lparr>resolvedDevice = [], resolvedTail = [], resolvedAbsolute = False,
              resolvedIsUnc = False\<rparr> of
        Inl err \<Rightarrow> Inl err
      | Inr st \<Rightarrow>
          let dev = (if resolvedIsUnc st then normalizeUNCRoot (resolvedDevice st)
                     else resolvedDevice st);
              tl = join_with [bsl]
                     (normalizeArray (split_re sepsRe (resolvedTail st)) (\<not> resolvedAbsolute st));
              res = dev @ (if resolvedAbsolute st then [bsl] else []) @ tl
          in Inr (if res = [] then ''.'' else res))"

definition win32_normalize :: "string \<Rightarrow> error + string" where
  "win32_normalize path =
     (case statPath path of
        Inl err \<Rightarrow> Inl err
      | Inr result \<Rightarrow>
          let trailingSlash = test endSepRe (to_string (tail result))
          in (case tail result of
                None \<Rightarrow> Inl (NullPropertyRead ''split'')
              | Some t \<Rightarrow>
                  let tl = join_with [bsl]
                             (normalizeArray (split_re sepsRe t) (\<not> isAbsolute result));
                      tl1 = (if tl = [] \<and> \<not> isAbsolute result then ''.'' else tl);
                      tl2 = (if tl1 \<noteq> [] \<and> trailingSlash then tl1 @ [bsl] else tl1);
                      dev = (if isUnc result then normalizeUNCRoot (device result)
                             else device result)
                  in Inr (dev @ (if isAbsolute result then [bsl] else []) @ tl2)))"

definition win32_isAbsolute :: "string \<Rightarrow> error + bool" where
  "win32_isAbsolute path = map_sum id isAbsolute (statPath path)"

text \<open>The callback of \<open>filter\<close> in \<open>join\<close>: it throws at the first value that is not a string.\<close>

fun win32_join_filter :: "jsval list \<Rightarrow> error + string list" where
  "win32_join_filter [] = Inr []"
| "win32_join_filter (arg # args) =
     (if \<not> isString arg then Inl (InvalidArgument ''Arguments to path.join must be strings'')
      else
        (case win32_join_filter args of
           Inl err \<Rightarrow> Inl err
         | Inr rest \<Rightarrow> Inr (if the_str arg \<noteq> [] then the_str arg # rest else rest)))"

text \<open>\<open>paths[0]\<close> is \<open>undefined\<close> when nothing is left, and \<open>test\<close> reads it as a string.\<close>

definition win32_join :: "jsval list \<Rightarrow> error + string" where
  "win32_join args =
     (case win32_join_filter args of
        Inl err \<Rightarrow> Inl err
      | Inr paths \<Rightarrow>
          let joined = join_with [bsl] paths;
              first = to_string (case paths of [] \<Rightarrow> None | x # xs \<Rightarrow> Some x);
              joined1 = (if \<not> test uncStartRe first
                         then replace_first leadTwoSepsRe [bsl] joined else joined)
          in win32_normalize joined1)"

fun samePartsLength :: "string list \<Rightarrow> string list \<Rightarrow> nat" where
  "samePartsLength (x # xs) (y # ys) = (if x \<noteq> y then 0 else Suc (samePartsLength xs ys))"
| "samePartsLength xs ys = 0"

definition win32_relative :: "driver \<Rightarrow> string \<Rightarrow> string \<Rightarrow> error + string" where
  "win32_relative d from to =
     (case win32_resolve d [JStr from] of
        Inl err \<Rightarrow> Inl err
      | Inr from1 \<Rightarrow>
          (case win32_resolve d [JStr to] of
             Inl err \<Rightarrow> Inl err
           | Inr to1 \<Rightarrow>
               let lowerFrom = toLowerCase from1;
                   lowerTo = toLowerCase to1;
                   toParts = trimArray (split_chr bsl to1);
                   lowerFromParts = trimArray (split_chr bsl lowerFrom);
                   lowerToParts = trimArray (split_chr bsl lowerTo);
                   same = samePartsLength lowerFromParts lowerToParts
               in if same = 0 then Inr to1
                  else Inr (join_with [bsl]
                         (replicate (length lowerFromParts - same) ''..''
                          @ slice_from toParts (int same)))))"

text \<open>
  Reading a property of the argument of \<open>format\<close>: it fails on \<open>null\<close> and \<open>undefined\<close>,
  and a primitive value has no such property.
\<close>

fun get_root :: "jsval \<Rightarrow> error + jsval" where
  "get_root (JObj r d b) = Inr r"
| "get_root JNull = Inl (NullPropertyRead ''root'')"
| "get_root JUndefined = Inl (NullPropertyRead ''root'')"
| "get_root v = Inr JUndefined"

fun get_dir :: "jsval \<Rightarrow> string option" where
  "get_dir (JObj r d b) = d"
| "get_dir v = None"

fun get_base :: "jsval \<Rightarrow> string option" where
  "get_base (JObj r d b) = b"
| "get_base v = None"

definition win32_format :: "jsval \<Rightarrow> error + string" where
  "win32_format pathObject =
     (if \<not> isObject pathObject
      then Inl (InvalidArgument
             (''Parameter '' @ [dquote] @ ''pathObject'' @ [dquote] @ '' must be an object, not ''
              @ typeof pathObject))
      else
        (case get_root pathObject of
           Inl err \<Rightarrow> Inl err
         | Inr r \<Rightarrow>
             let rt = (if truthy r then r else JStr [])
             in if \<not> isString rt
                then Inl (InvalidArgument
                       ([dquote] @ ''pathObject.root'' @ [dquote]
                        @ '' must be a string or undefined, not '' @ typeof r))
                else
                  let d = get_dir pathObject;
                      b = or_empty (get_base pathObject)
                  in if or_empty d = [] then Inr b
                     else if char_at (or_empty d) (length (or_empty d) - 1) = Some bsl
                     then Inr (or_empty d @ b)
                     else Inr (or_empty d @ [bsl] @ b)))"

text \<open>
  \<open>parse\<close>: the array \<open>splitPath\<close> returns is tested for its length; \<open>slice\<close> and \<open>length\<close>
  are then read from its elements, which fails on an element that is \<open>undefined\<close>.
\<close>

definition win32_parse :: "jsval \<Rightarrow> error + pathInfo" where
  "win32_parse pathString =
     (if \<not> isString pathString
      then Inl (InvalidArgument
             (''Parameter '' @ [dquote] @ ''pathString'' @ [dquote] @ '' must be a string, not ''
              @ typeof pathString))
      else
        (case win32_splitPath (the_str pathString) of
           Inl err \<Rightarrow> Inl err
         | Inr allParts \<Rightarrow>
             if length allParts \<noteq> 4
             then Inl (InvalidArgument
                    (''Invalid path '' @ [dquote] @ the_str pathString @ [dquote]))
             else
               (case (allParts ! 1, allParts ! 2, allParts ! 3) of
                  (None, p2, p3) \<Rightarrow> Inl (NullPropertyRead ''slice'')
                | (Some p1, None, p3) \<Rightarrow> Inl (NullPropertyRead ''slice'')
                | (Some p1, Some p2, None) \<Rightarrow> Inl (NullPropertyRead ''length'')
                | (Some p1, Some p2, Some p3) \<Rightarrow>
                    Inr \<lparr>root = allParts ! 0,
                         dir = to_string (allParts ! 0) @ slice p1 0 (- 1),
                         base = p2,
                         ext = p3,
                         name = slice p2 0 (int (length p2) - int (length p3))\<rparr>)))"

section \<open>The POSIX driver\<close>

text \<open>\<open>/^(\/?|)([\s\S]*?)((?:\.{1,2}|[^\/]+?|)(\.[^.\/]*|))(?:[\/]*)$/\<close>\<close>

definition splitPathRe :: pattern where
  "splitPathRe = \<lparr>body = seqs
     [Bol,
      Group 1 (Alt (Rep (Set [C (CHR ''/'')]) 0 (Some 1) True) Eps),
      Group 2 (Rep Any 0 None False),
      Group 3 (Seq
        (Alt (Rep (Set [C (CHR ''.'')]) 1 (Some 2) True)
             (Alt (Rep (NotSet [C (CHR ''/'')]) 1 None False) Eps))
        (Group 4 (Alt
           (Seq (Lit (CHR ''.'')) (Rep (NotSet [C (CHR ''.''), C (CHR ''/'')]) 0 None True))
           Eps))),
      Rep (Set [C (CHR ''/'')]) 0 None True,
      Eol], groups = 4\<rparr>"

text \<open>\<open>splitPathRe.exec(filename).slice(1)\<close>\<close>

definition posix_splitPath :: "string \<Rightarrow> error + string option list" where
  "posix_splitPath filename =
     (case exec splitPathRe filename of
        None \<Rightarrow> Inl (NullPropertyRead ''slice'')
      | Some (i, e, result) \<Rightarrow> Inr (slice_from result 1))"

text \<open>
  The loop of \<open>resolve\<close> runs over the arguments from the last to the first and then over
  \<open>cwd\<close>, while \<open>resolvedAbsolute\<close> is false: the list is \<open>rev paths @ [cwd]\<close>.
\<close>

fun posix_resolve_loop :: "jsval list \<Rightarrow> string \<Rightarrow> bool \<Rightarrow> error + (string \<times> bool)" where
  "posix_resolve_loop [] resolvedPath resolvedAbs = Inr (resolvedPath, resolvedAbs)"
| "posix_resolve_loop (path # paths) resolvedPath resolvedAbs =
     (if resolvedAbs then Inr (resolvedPath, resolvedAbs)
      else if \<not> isString path
      then Inl (InvalidArgument ''Arguments to path.resolve must be strings'')
      else if the_str path = [] then posix_resolve_loop paths resolvedPath resolvedAbs
      else posix_resolve_loop paths (the_str path @ ''/'' @ resolvedPath)
             (char_at (the_str path) 0 = Some (CHR ''/'')))"

definition posix_resolve :: "driver \<Rightarrow> jsval list \<Rightarrow> error + string" where
  "posix_resolve d paths =
     (case posix_resolve_loop (rev paths @ [JStr (cwd d)]) [] False of
        Inl err \<Rightarrow> Inl err
      | Inr (resolvedPath, resolvedAbs) \<Rightarrow>
          let p = join_with ''/'' (normalizeArray (split_chr (CHR ''/'') resolvedPath) (\<not> resolvedAbs));
              res = (if resolvedAbs then ''/'' else []) @ p
          in Inr (if res = [] then ''.'' else res))"

text \<open>\<open>path.charAt(0) === "/"\<close>\<close>

definition posix_isAbsolute :: "string \<Rightarrow> bool" where
  "posix_isAbsolute path = (take 1 path = ''/'')"

definition posix_normalize :: "string \<Rightarrow> string" where
  "posix_normalize path =
     (let isAbs = posix_isAbsolute path;
          trailingSlash = (path \<noteq> [] \<and> char_at path (length path - 1) = Some (CHR ''/''));
          p = join_with ''/'' (normalizeArray (split_chr (CHR ''/'') path) (\<not> isAbs));
          p1 = (if p = [] \<and> \<not> isAbs then ''.'' else p);
          p2 = (if p1 \<noteq> [] \<and> trailingSlash then p1 @ ''/'' else p1)
      in (if isAbs then ''/'' else []) @ p2)"

fun posix_join_loop :: "jsval list \<Rightarrow> string \<Rightarrow> error + string" where
  "posix_join_loop [] path = Inr path"
| "posix_join_loop (segment # paths) path =
     (if \<not> isString segment
      then Inl (InvalidArgument ''Arguments to path.join must be strings'')
      else if the_str segment \<noteq> []
      then (if path = [] then posix_join_loop paths (path @ the_str segment)
            else posix_join_loop paths (path @ ''/'' @ the_str segment))
      else posix_join_loop paths path)"

definition posix_join :: "jsval list \<Rightarrow> error + string" where
  "posix_join paths = map_sum id posix_normalize (posix_join_loop paths [])"

definition posix_format :: "jsval \<Rightarrow> error + string" where
  "posix_format pathObject =
     (if \<not> isObject pathObject
      then Inl (InvalidArgument
             (''Parameter '' @ [dquote] @ ''pathObject'' @ [dquote] @ '' must be an object, not ''
              @ typeof pathObject))
      else
        (case get_root pathObject of
           Inl err \<Rightarrow> Inl err
         | Inr r \<Rightarrow>
             let rt = (if truthy r then r else JStr [])
             in if \<not> isString rt
                then Inl (InvalidArgument
                       ([dquote] @ ''pathObject.root'' @ [dquote]
                        @ '' must be a string or undefined, not '' @ typeof r))
                else
                  let d = (if or_empty (get_dir pathObject) \<noteq> []
                           then or_empty (get_dir pathObject) @ ''/'' else []);
                      b = or_empty (get_base pathObject)
                  in Inr (d @ b)))"

definition posix_parse :: "jsval \<Rightarrow> error + pathInfo" where
  "posix_parse pathString =
     (if \<not> isString pathString
      then Inl (InvalidArgument
             (''Parameter '' @ [dquote] @ ''pathString'' @ [dquote] @ '' must be a string, not ''
              @ typeof pathString))
      else
        (case posix_splitPath (the_str pathString) of
           Inl err \<Rightarrow> Inl err
         | Inr allParts \<Rightarrow>
             if length allParts \<noteq> 4
             then Inl (InvalidArgument
                    (''Invalid path '' @ [dquote] @ the_str pathString @ [dquote]))
             else
               let p1 = or_empty (allParts ! 1);
                   p2 = or_empty (allParts ! 2);
                   p3 = or_empty (allParts ! 3)
               in Inr \<lparr>root = allParts ! 0,
                       dir = to_string (allParts ! 0) @ slice p1 0 (- 1),
                       base = p2,
                       ext = p3,
                       name = slice p2 0 (int (length p2) - int (length p3))\<rparr>))"

text \<open>The object \<open>parse\<close> returns, as a value that \<open>format\<close> takes.\<close>

definition info_value :: "pathInfo \<Rightarrow> jsval" where
  "info_value info =
     JObj (case root info of None \<Rightarrow> JUndefined | Some r \<Rightarrow> JStr r) (Some (dir info)) (Some (base info))"

section \<open>The segment normalizer against its description\<close>

text \<open>
  The description of the normalizer, in its own words: a stack whose top is the head of
  the list, and one step for each segment from the left.
\<close>

definition spec_normalize_step :: "bool \<Rightarrow> string list \<Rightarrow> string \<Rightarrow> string list" where
  "spec_normalize_step allowAboveRoot stack seg =
     (if seg = [] \<or> seg = ''.'' then stack
      else if seg = ''..'' then
        (case stack of
           t # below \<Rightarrow>
             if t \<noteq> ''..'' then below
             else if allowAboveRoot then ''..'' # stack else stack
         | [] \<Rightarrow> if allowAboveRoot then [''..''] else [])
      else seg # stack)"

definition spec_normalizeArray :: "string list \<Rightarrow> bool \<Rightarrow> string list" where
  "spec_normalizeArray parts allowAboveRoot =
     rev (foldl (spec_normalize_step allowAboveRoot) [] parts)"

lemma normalizeArray_loop_step:
  "normalizeArray_loop (p # parts) a res =
     normalizeArray_loop parts a (rev (spec_normalize_step a (rev res) p))"
  by (cases res rule: rev_cases) (simp_all add: spec_normalize_step_def)

lemma normalizeArray_loop_spec:
  "normalizeArray_loop parts a res = rev (foldl (spec_normalize_step a) (rev res) parts)"
proof (induction parts arbitrary: res)
  case Nil
  show ?case by simp
next
  case (Cons p parts)
  show ?case
    unfolding normalizeArray_loop_step Cons.IH by simp
qed

text \<open>
  Claim C1. For every list of segments and every flag, \<open>normalizeArray\<close> is the scan the
  specification describes: empty segments and \<open>.\<close> are skipped, \<open>..\<close> pops the top of the
  stack when there is one and it is not \<open>..\<close>, is pushed otherwise when \<open>allowAboveRoot\<close>
  holds and dropped when it does not, and any other segment is pushed. The three examples
  of the specification evaluate as it says.
\<close>

theorem normalizeArray_meets_spec:
  "normalizeArray parts allowAboveRoot = spec_normalizeArray parts allowAboveRoot
   \<and> normalizeArray [''a'', ''.'', ''b'', ''..''] False = [''a'']
   \<and> normalizeArray [''..'', ''a''] True = [''..'', ''a'']
   \<and> normalizeArray [''..'', ''a''] False = [''a'']"
proof -
  have "normalizeArray parts allowAboveRoot = spec_normalizeArray parts allowAboveRoot"
    by (simp add: normalizeArray_def spec_normalizeArray_def normalizeArray_loop_spec)
  moreover have "normalizeArray [''a'', ''.'', ''b'', ''..''] False = [''a'']"
    by (simp add: normalizeArray_def)
  moreover have "normalizeArray [''..'', ''a''] True = [''..'', ''a'']"
    by (simp add: normalizeArray_def)
  moreover have "normalizeArray [''..'', ''a''] False = [''a'']"
    by (simp add: normalizeArray_def)
  ultimately show ?thesis by blast
qed

section \<open>Segments of a path\<close>

text \<open>
  The normalizer skips empty segments, so only the non-empty pieces between separators
  count.
\<close>

lemma normalizeArray_loop_filter:
  "normalizeArray_loop (filter (\<lambda>p. p \<noteq> []) parts) a res = normalizeArray_loop parts a res"
  by (induction parts arbitrary: res a) simp_all

lemma normalizeArray_filter:
  "normalizeArray (filter (\<lambda>p. p \<noteq> []) parts) a = normalizeArray parts a"
  by (simp add: normalizeArray_def normalizeArray_loop_filter)

lemma split_chr_not_Nil [simp]: "split_chr c s \<noteq> []"
  by (induction s) (auto split: list.splits)

lemma split_chr_append_sep:
  "split_chr c (p @ c # q) = split_chr c p @ split_chr c q"
  by (induction p) (auto split: list.splits)

definition tokens :: "char \<Rightarrow> string \<Rightarrow> string list" where
  "tokens c s = filter (\<lambda>p. p \<noteq> []) (split_chr c s)"

lemma tokens_append_sep: "tokens c (p @ c # q) = tokens c p @ tokens c q"
  by (simp add: tokens_def split_chr_append_sep)

lemma tokens_Nil [simp]: "tokens c [] = []"
  by (simp add: tokens_def)

lemma normalizeArray_tokens:
  "normalizeArray (split_chr c s) a = normalizeArray (tokens c s) a"
  by (simp add: tokens_def normalizeArray_filter)

section \<open>The POSIX \<open>resolve\<close> against its description\<close>

text \<open>
  The description of \<open>resolve\<close>, in its own words. The candidates are the arguments from
  the last to the first and then \<open>cwd\<close>; each is put in front of the accumulator with a
  \<open>/\<close>, and the scan stops at the first candidate that starts with \<open>/\<close>.
\<close>

fun spec_scan :: "string list \<Rightarrow> string \<Rightarrow> string \<times> bool" where
  "spec_scan [] acc = (acc, False)"
| "spec_scan (p # ps) acc =
     (if take 1 p = ''/'' then (p @ ''/'' @ acc, True)
      else spec_scan ps (p @ ''/'' @ acc))"

definition spec_posix_resolve :: "string \<Rightarrow> string list \<Rightarrow> string" where
  "spec_posix_resolve cwd_dir args =
     (let (acc, absolute) = spec_scan (rev args @ [cwd_dir]) [];
          normalized = join_with ''/'' (normalizeArray (split_chr (CHR ''/'') acc) (\<not> absolute));
          res = (if absolute then ''/'' else []) @ normalized
      in if res = [] then ''.'' else res)"

lemma posix_resolve_loop_abs:
  "posix_resolve_loop paths rp True = Inr (rp, True)"
  by (cases paths) simp_all

text \<open>
  The code skips an empty candidate where the description puts a lone \<open>/\<close> in front of the
  accumulator; the two accumulators have the same non-empty segments.
\<close>

lemma posix_resolve_loop_scan:
  assumes "tokens (CHR ''/'') rp = tokens (CHR ''/'') acc"
  shows "\<exists>rp'. posix_resolve_loop (map JStr ps) rp False = Inr (rp', snd (spec_scan ps acc))
     \<and> tokens (CHR ''/'') rp' = tokens (CHR ''/'') (fst (spec_scan ps acc))"
  using assms
proof (induction ps arbitrary: rp acc)
  case Nil
  then show ?case by simp
next
  case (Cons p ps)
  show ?case
  proof (cases "p = []")
    case True
    have "tokens (CHR ''/'') rp = tokens (CHR ''/'') (p @ ''/'' @ acc)"
      using Cons.prems True tokens_append_sep [of "CHR ''/''" "[]" acc] by simp
    from Cons.IH [OF this] True show ?thesis by (simp add: isString_def)
  next
    case False
    have eq: "tokens (CHR ''/'') (p @ ''/'' @ rp) = tokens (CHR ''/'') (p @ ''/'' @ acc)"
      using Cons.prems by (simp add: tokens_append_sep)
    show ?thesis
    proof (cases "take 1 p = ''/''")
      case True
      with False have "char_at p 0 = Some (CHR ''/'')"
        by (cases p) (simp_all add: char_at_def)
      with True False eq show ?thesis
        by (simp add: isString_def posix_resolve_loop_abs)
    next
      case nabs: False
      with False have "char_at p 0 \<noteq> Some (CHR ''/'')"
        by (cases p) (simp_all add: char_at_def)
      with nabs False Cons.IH [OF eq] show ?thesis
        by (simp add: isString_def)
    qed
  qed
qed

text \<open>
  Claim C6. For every list of string arguments and every \<open>cwd\<close>, the POSIX \<open>resolve\<close>
  returns what the description computes: the candidates are scanned from the last
  argument to the first and then \<open>cwd\<close>, each put in front of the accumulator with a \<open>/\<close>,
  until one starts with \<open>/\<close>; the accumulated segments are normalized with
  \<open>allowAboveRoot\<close> being "not absolute"; the result is \<open>/\<close> (when absolute) followed by the
  normalized path, or \<open>.\<close> when that is empty. And \<open>resolve("/a", "b")\<close> is \<open>/a/b\<close>.
\<close>

theorem posix_resolve_meets_spec:
  "posix_resolve d (map JStr args) = Inr (spec_posix_resolve (cwd d) args)
   \<and> posix_resolve d [JStr ''/a'', JStr ''b''] = Inr ''/a/b''"
proof -
  obtain rp' where l: "posix_resolve_loop (map JStr (rev args @ [cwd d])) [] False
        = Inr (rp', snd (spec_scan (rev args @ [cwd d]) []))"
      and t: "tokens (CHR ''/'') rp' = tokens (CHR ''/'') (fst (spec_scan (rev args @ [cwd d]) []))"
    using posix_resolve_loop_scan [of "[]" "[]" "rev args @ [cwd d]"] by blast
  have m: "rev (map JStr args) @ [JStr (cwd d)] = map JStr (rev args @ [cwd d])"
    by (simp add: rev_map)
  have "posix_resolve d (map JStr args) = Inr (spec_posix_resolve (cwd d) args)"
    unfolding posix_resolve_def spec_posix_resolve_def m l
    by (simp add: normalizeArray_tokens t split_beta Let_def)
  moreover have "posix_resolve d [JStr ''/a'', JStr ''b''] = Inr ''/a/b''"
    by (simp add: posix_resolve_def isString_def char_at_def normalizeArray_def)
  ultimately show ?thesis by blast
qed

section \<open>\<open>format\<close> on \<open>null\<close>\<close>

text \<open>
  Claim C10. On either driver \<open>format(null)\<close> does not signal the invalid-argument error
  for a value that is no object: \<open>typeof null\<close> is \<open>"object"\<close>, so the guard lets \<open>null\<close>
  through, and the call fails where it reads the property \<open>root\<close> of \<open>null\<close>.
\<close>

theorem format_null_reads_root:
  "isObject JNull
   \<and> win32_format JNull = Inl (NullPropertyRead ''root'')
   \<and> posix_format JNull = Inl (NullPropertyRead ''root'')
   \<and> (\<forall>msg. win32_format JNull \<noteq> Inl (InvalidArgument msg))
   \<and> (\<forall>msg. posix_format JNull \<noteq> Inl (InvalidArgument msg))"
  by (simp add: isObject_def win32_format_def posix_format_def)

section \<open>What the patterns match\<close>

text \<open>
  The rest of the development needs the result of each pattern of the drivers on an
  arbitrary string. The lemmas below derive it from the matcher.
\<close>

lemma first_some_all_None:
  "(\<And>x. x \<in> set xs \<Longrightarrow> f x = None) \<Longrightarrow> first_some f xs = None"
  by (induction xs) auto

lemma first_some_append:
  "first_some f (xs @ ys) = (case first_some f xs of Some r \<Rightarrow> Some r | None \<Rightarrow> first_some f ys)"
  by (induction xs) (auto split: option.splits)

definition rep_top :: "cclass \<Rightarrow> nat option \<Rightarrow> string \<Rightarrow> nat" where
  "rep_top cl hi s =
     (case hi of None \<Rightarrow> length (takeWhile (in_class cl) s)
      | Some h \<Rightarrow> min h (length (takeWhile (in_class cl) s)))"

lemma run_Rep_top:
  "run n (Rep cl lo hi g) s c k =
     first_some (\<lambda>j. k (drop j s) c)
       (if g then rev [lo ..< Suc (rep_top cl hi s)] else [lo ..< Suc (rep_top cl hi s)])"
  by (simp add: rep_top_def Let_def del: upt_Suc)

lemma run_Rep_forced:
  assumes "\<And>j. lo \<le> j \<Longrightarrow> j < rep_top cl hi s \<Longrightarrow> k (drop j s) c = None"
  shows "run n (Rep cl lo hi g) s c k =
     (if lo \<le> rep_top cl hi s then k (drop (rep_top cl hi s) s) c else None)"
proof (cases "lo \<le> rep_top cl hi s")
  case True
  then have u: "[lo ..< Suc (rep_top cl hi s)] = [lo ..< rep_top cl hi s] @ [rep_top cl hi s]"
    by simp
  have n1: "first_some (\<lambda>j. k (drop j s) c) [lo ..< rep_top cl hi s] = None"
    by (rule first_some_all_None) (simp add: assms)
  have n2: "first_some (\<lambda>j. k (drop j s) c) (rev [lo ..< rep_top cl hi s]) = None"
    by (rule first_some_all_None) (simp add: assms)
  show ?thesis
    unfolding run_Rep_top u using True n1 n2
    by (cases g) (simp_all add: first_some_append split: option.splits)
next
  case False
  then show ?thesis unfolding run_Rep_top by simp
qed

lemma run_Rep_greedy_max:
  assumes "lo \<le> rep_top cl hi s" and "k (drop (rep_top cl hi s) s) c = Some y"
  shows "run n (Rep cl lo hi True) s c k = Some y"
proof -
  from assms(1) have u: "[lo ..< Suc (rep_top cl hi s)] = [lo ..< rep_top cl hi s] @ [rep_top cl hi s]"
    by simp
  show ?thesis unfolding run_Rep_top u using assms(2) by simp
qed

lemma run_Rep_lazy_first:
  assumes "lo \<le> m" and "m \<le> rep_top cl hi s"
    and "\<And>j. lo \<le> j \<Longrightarrow> j < m \<Longrightarrow> k (drop j s) c = None"
    and "k (drop m s) c = Some y"
  shows "run n (Rep cl lo hi False) s c k = Some y"
proof -
  from assms(2) obtain d where d: "Suc (rep_top cl hi s) = m + Suc d"
    by (metis add_Suc_right le_Suc_ex)
  have "[lo ..< m + Suc d] = [lo ..< m] @ [m ..< m + Suc d]"
    using assms(1) by (rule upt_add_eq_append)
  also have "[m ..< m + Suc d] = m # [Suc m ..< m + Suc d]"
    by (rule upt_conv_Cons) simp
  finally have u: "[lo ..< Suc (rep_top cl hi s)] = [lo ..< m] @ m # [Suc m ..< Suc (rep_top cl hi s)]"
    by (simp only: d)
  have n1: "first_some (\<lambda>j. k (drop j s) c) [lo ..< m] = None"
    by (rule first_some_all_None) (simp add: assms)
  show ?thesis unfolding run_Rep_top u using n1 assms(4) by (simp add: first_some_append)
qed

lemma match_at_Bol_later:
  assumes "0 < i" and "i \<le> length inp"
  shows "match_at \<lparr>body = Seq Bol r, groups = g\<rparr> inp i = None"
proof -
  from assms have "length inp - i \<noteq> length inp" by arith
  then show ?thesis by (simp add: match_at_def)
qed

lemma exec_anchored:
  "exec \<lparr>body = Seq Bol r, groups = g\<rparr> inp =
     map_option (\<lambda>(e, c). (0, e, c)) (match_at \<lparr>body = Seq Bol r, groups = g\<rparr> inp 0)"
proof -
  have u: "[0 ..< Suc (length inp)] = 0 # [1 ..< Suc (length inp)]"
    by (simp add: upt_conv_Cons del: upt_Suc)
  have "first_some (\<lambda>i. map_option (\<lambda>(e, c). (i, e, c)) (match_at \<lparr>body = Seq Bol r, groups = g\<rparr> inp i))
          [1 ..< Suc (length inp)] = None"
    by (rule first_some_all_None) (simp add: match_at_Bol_later del: upt_Suc)
  then show ?thesis
    unfolding exec_def u by (simp split: option.splits del: upt_Suc)
qed

lemma run_lazy_any_eol:
  "run n (Seq (Group i (Rep Any 0 None False)) Eol) s c k = k [] (c[i := Some s])"
proof -
  let ?k = "\<lambda>s' c'. run n Eol s' (c'[i := Some (take (length s - length s') s)]) k"
  have tw: "takeWhile (in_class Any) s = s"
    by simp
  have t: "rep_top Any None s = length s"
    by (simp only: rep_top_def option.case tw)
  have "run n (Rep Any 0 None False) s c ?k = ?k (drop (rep_top Any None s) s) c"
    by (subst run_Rep_forced) (simp_all add: t)
  then show ?thesis by (simp add: t run.simps(4,5,9))
qed

abbreviation is_sep :: "char \<Rightarrow> bool" where
  "is_sep \<equiv> in_class sep"

abbreviation non_sep :: "char \<Rightarrow> bool" where
  "non_sep \<equiv> in_class nonsep"

lemma non_sep_iff: "non_sep c \<longleftrightarrow> \<not> is_sep c"
  by (simp add: sep_def nonsep_def)


declare run.simps [simp del]

lemmas run_basic = run.simps(1-6) run.simps(8-9)

definition letter :: cclass where
  "letter = Set [R (CHR ''a'') (CHR ''z''), R (CHR ''A'') (CHR ''Z'')]"

definition tailRe3 :: regex where
  "tailRe3 = Seq (Group 3 (Rep Any 0 None False)) Eol"

definition uncRe :: regex where
  "uncRe = seqs [Rep sep 2 (Some 2) True, Rep nonsep 1 None True,
               Rep sep 1 None True, Rep nonsep 1 None True]"

definition driveRe :: regex where
  "driveRe = Seq (Chr letter) (Lit (CHR '':''))"

definition sepTailRe :: regex where
  "sepTailRe = Seq (Opt (Group 2 (Chr sep))) tailRe3"

definition devRe :: regex where
  "devRe = Alt driveRe uncRe"

lemma splitDeviceRe_body:
  "splitDeviceRe = \<lparr>body = Seq Bol (Seq (Opt (Group 1 devRe)) sepTailRe), groups = 3\<rparr>"
  by (simp add: splitDeviceRe_def tailRe3_def uncRe_def driveRe_def letter_def sepTailRe_def
      devRe_def)

lemma run_tailRe3: "run n tailRe3 s c k = k [] (c[3 := Some s])"
  unfolding tailRe3_def by (rule run_lazy_any_eol)

lemma run_opt_sep_tail:
  "run n (Seq (Opt (Group 2 (Chr sep))) tailRe3) s c k =
     (case s of
        [] \<Rightarrow> k [] (c[3 := Some []])
      | x # s' \<Rightarrow>
          if is_sep x
          then (case k [] (c[2 := Some [x], 3 := Some s']) of
                  Some y \<Rightarrow> Some y
                | None \<Rightarrow> k [] (c[3 := Some (x # s')]))
          else k [] (c[3 := Some (x # s')]))"
  by (cases s) (simp_all add: run_tailRe3 run_basic)

definition drive_of :: "string \<Rightarrow> string" where
  "drive_of s =
     (case s of
        a # b # r \<Rightarrow> if in_class letter a \<and> b = CHR '':'' then [a, b] else []
      | _ \<Rightarrow> [])"

lemma run_driveRe:
  "run n driveRe s c k = (if drive_of s = [] then None else k (drop 2 s) c)"
  unfolding driveRe_def drive_of_def
  by (simp add: run_basic split: list.splits)


lemma takeWhile_drop_lt:
  assumes "j < length (takeWhile P s)"
  shows "\<exists>x t. drop j s = x # t \<and> P x"
proof -
  from assms have j: "j < length s"
    using length_takeWhile_le [of P s] by simp
  have "P (s ! j)"
    using assms by (metis nth_mem set_takeWhileD takeWhile_nth)
  with j show ?thesis
    by (metis Cons_nth_drop_Suc)
qed

lemma rep_none_at:
  assumes "t = x # u" and "\<not> in_class cl x" and "0 < lo"
  shows "run n (Rep cl lo hi g) t c k = None"
proof -
  have "rep_top cl hi t = 0"
    using assms by (simp add: rep_top_def split: option.splits)
  with assms(3) show ?thesis
    unfolding run_Rep_top by simp
qed

text \<open>
  A run of one class followed by at least one character of a class disjoint from it: the
  run is taken whole, whatever comes after.
\<close>

lemma run_Rep_then_Rep:
  assumes "\<And>x. in_class cl1 x \<Longrightarrow> \<not> in_class cl2 x" and "0 < lo2"
  shows "run n (Rep cl1 lo1 None g1) s c (\<lambda>s' c'. run n (Rep cl2 lo2 hi2 g2) s' c' k) =
     (if lo1 \<le> length (takeWhile (in_class cl1) s)
      then run n (Rep cl2 lo2 hi2 g2) (dropWhile (in_class cl1) s) c k else None)"
proof -
  have t: "rep_top cl1 None s = length (takeWhile (in_class cl1) s)"
    by (simp add: rep_top_def)
  have "run n (Rep cl1 lo1 None g1) s c (\<lambda>s' c'. run n (Rep cl2 lo2 hi2 g2) s' c' k) =
     (if lo1 \<le> rep_top cl1 None s
      then run n (Rep cl2 lo2 hi2 g2) (drop (rep_top cl1 None s) s) c k else None)"
  proof (rule run_Rep_forced)
    fix j assume "lo1 \<le> j" "j < rep_top cl1 None s"
    then have "j < length (takeWhile (in_class cl1) s)" by (simp add: t)
    from takeWhile_drop_lt [OF this] obtain x u where "drop j s = x # u" "in_class cl1 x"
      by blast
    with assms show "run n (Rep cl2 lo2 hi2 g2) (drop j s) c k = None"
      using rep_none_at [of "drop j s" x u cl2 lo2 n hi2 g2 c k] by blast
  qed
  then show ?thesis
    by (simp only: t dropWhile_eq_drop [symmetric])
qed

lemma run_uncRe:
  "run n uncRe s c k =
     (if 2 \<le> length (takeWhile is_sep s)
         \<and> takeWhile non_sep (drop 2 s) \<noteq> []
         \<and> takeWhile is_sep (dropWhile non_sep (drop 2 s)) \<noteq> []
      then run n (Rep nonsep 1 None True)
             (dropWhile is_sep (dropWhile non_sep (drop 2 s))) c k
      else None)"
proof -
  have t1: "rep_top sep (Some 2) s = min 2 (length (takeWhile is_sep s))"
    by (simp add: rep_top_def)
  have r1: "\<And>k'. run n (Rep sep 2 (Some 2) True) s c k' =
      (if 2 \<le> length (takeWhile is_sep s) then k' (drop 2 s) c else None)"
    by (subst run_Rep_forced) (auto simp add: t1 min_def simp del: run.simps split: if_splits)
  have r2: "\<And>t k'. run n (Rep nonsep 1 None True) t c (\<lambda>s' c'. run n (Rep sep 1 None True) s' c' k')
      = (if 1 \<le> length (takeWhile non_sep t)
         then run n (Rep sep 1 None True) (dropWhile non_sep t) c k' else None)"
    by (rule run_Rep_then_Rep) (simp_all add: non_sep_iff)
  have r3: "\<And>t. run n (Rep sep 1 None True) t c (\<lambda>s' c'. run n (Rep nonsep 1 None True) s' c' k)
      = (if 1 \<le> length (takeWhile is_sep t)
         then run n (Rep nonsep 1 None True) (dropWhile is_sep t) c k else None)"
    by (rule run_Rep_then_Rep) (simp_all add: non_sep_iff)
  have "run n uncRe s c k =
    run n (Rep sep 2 (Some 2) True) s c (\<lambda>s1 c1.
      run n (Rep nonsep 1 None True) s1 c1 (\<lambda>s2 c2.
        run n (Rep sep 1 None True) s2 c2 (\<lambda>s3 c3.
          run n (Rep nonsep 1 None True) s3 c3 k)))"
    by (simp add: uncRe_def run_basic)
  also have "\<dots> = (if 2 \<le> length (takeWhile is_sep s)
         \<and> takeWhile non_sep (drop 2 s) \<noteq> []
         \<and> takeWhile is_sep (dropWhile non_sep (drop 2 s)) \<noteq> []
      then run n (Rep nonsep 1 None True)
             (dropWhile is_sep (dropWhile non_sep (drop 2 s))) c k
      else None)"
    by (simp only: r1 r2 r3) (simp add: Suc_le_eq del: run.simps)
  finally show ?thesis .
qed


definition unc_of :: "string \<Rightarrow> string" where
  "unc_of s =
     (let s2 = drop 2 s;
          s3 = dropWhile non_sep s2;
          s4 = dropWhile is_sep s3
      in if 2 \<le> length (takeWhile is_sep s) \<and> takeWhile non_sep s2 \<noteq> []
            \<and> takeWhile is_sep s3 \<noteq> [] \<and> takeWhile non_sep s4 \<noteq> []
         then take 2 s @ takeWhile non_sep s2 @ takeWhile is_sep s3 @ takeWhile non_sep s4
         else [])"

definition device_of :: "string \<Rightarrow> string" where
  "device_of s = (if drive_of s \<noteq> [] then drive_of s else unc_of s)"

definition slash_of :: "string \<Rightarrow> string" where
  "slash_of t = (case t of [] \<Rightarrow> [] | x # u \<Rightarrow> if is_sep x then [x] else [])"

definition opt :: "string \<Rightarrow> string option" where
  "opt x = (if x = [] then None else Some x)"

lemma or_empty_opt [simp]: "or_empty (opt x) = x"
  by (simp add: or_empty_def opt_def)

lemma device_of_prefix: "\<exists>t. s = device_of s @ t"
proof -
  have d: "\<exists>t. s = drive_of s @ t"
    by (auto simp: drive_of_def split: list.splits)
  have "\<exists>t. s = unc_of s @ t"
  proof (cases "unc_of s = []")
    case True
    then show ?thesis by simp
  next
    case False
    let ?s2 = "drop 2 s"
    let ?s3 = "dropWhile non_sep ?s2"
    let ?s4 = "dropWhile is_sep ?s3"
    from False have u: "unc_of s = take 2 s @ takeWhile non_sep ?s2 @ takeWhile is_sep ?s3
        @ takeWhile non_sep ?s4"
      by (simp add: unc_of_def Let_def split: if_splits)
    have "s = take 2 s @ ?s2" by simp
    also have "?s2 = takeWhile non_sep ?s2 @ ?s3" by simp
    also have "?s3 = takeWhile is_sep ?s3 @ ?s4" by simp
    also have "?s4 = takeWhile non_sep ?s4 @ dropWhile non_sep ?s4" by simp
    finally have "s = unc_of s @ dropWhile non_sep ?s4"
      unfolding u by simp
    then show ?thesis by blast
  qed
  with d show ?thesis by (simp add: device_of_def)
qed

definition final_caps :: "captures \<Rightarrow> string \<Rightarrow> string \<Rightarrow> captures" where
  "final_caps c w t =
     (if slash_of t = [] then c else c[2 := Some (slash_of t)])
       [3 := Some (drop (length (slash_of t)) t), 0 := Some w]"

lemma run_sepTailRe_final:
  assumes "\<And>c. k [] c = Some (n, c[0 := Some w])"
  shows "run n sepTailRe t c k = Some (n, final_caps c w t)"
  unfolding sepTailRe_def
  by (cases t) (simp_all add: run_opt_sep_tail slash_of_def final_caps_def assms)

lemma final_caps_eval:
  "final_caps [None, d, None, None] w t =
     [Some w, d, opt (slash_of t), Some (drop (length (slash_of t)) t)]"
  by (simp add: final_caps_def opt_def numeral_eq_Suc)

lemma match_at_splitDeviceRe:
  "match_at splitDeviceRe s 0 =
     Some (length s, [Some s, opt (device_of s), opt (slash_of (drop (length (device_of s)) s)),
                      Some (drop (length (slash_of (drop (length (device_of s)) s)))
                              (drop (length (device_of s)) s))])"
proof -
  let ?n = "length s"
  let ?c0 = "[None, None, None, None] :: captures"
  let ?k1 = "\<lambda>s' c'. if length s' = length s then None
      else Some (?n, final_caps (c'[Suc 0 := Some (take (length s - length s') s)]) s s')"
  have c0: "replicate 4 None = ?c0"
    by (simp add: numeral_eq_Suc)
  have m: "match_at splitDeviceRe s 0 =
      (case run ?n devRe s ?c0 ?k1 of Some x \<Rightarrow> Some x | None \<Rightarrow> Some (?n, final_caps ?c0 s s))"
    unfolding splitDeviceRe_body match_at_def
    by (simp add: run.simps(3,5,8,9) run_sepTailRe_final [where w = s and n = "length s"] c0)
  have k1: "\<And>t. length t < length s \<Longrightarrow> ?k1 t ?c0 =
      Some (?n, [Some s, Some (take (length s - length t) s), opt (slash_of t),
                 Some (drop (length (slash_of t)) t)])"
    using final_caps_eval by simp
  have none: "device_of s = [] \<Longrightarrow> Some (?n, final_caps ?c0 s s) =
     Some (length s, [Some s, opt (device_of s), opt (slash_of (drop (length (device_of s)) s)),
                      Some (drop (length (slash_of (drop (length (device_of s)) s)))
                              (drop (length (device_of s)) s))])"
    by (simp add: final_caps_eval) (simp add: opt_def)
  show ?thesis
  proof (cases "drive_of s = []")
    case False
    then have l: "2 \<le> length s" and d: "drive_of s = take 2 s"
      by (auto simp: drive_of_def split: list.splits if_splits)
    from l have "?k1 (drop 2 s) ?c0 = Some (?n, [Some s, Some (take 2 s), opt (slash_of (drop 2 s)),
                 Some (drop (length (slash_of (drop 2 s))) (drop 2 s))])"
      by (subst k1) auto
    with False d l show ?thesis
      unfolding m devRe_def by (simp add: run.simps(6) run_driveRe device_of_def opt_def)
  next
    case True
    let ?s4 = "dropWhile is_sep (dropWhile non_sep (drop 2 s))"
    let ?m = "length (takeWhile non_sep ?s4)"
    have u: "run ?n devRe s ?c0 ?k1 = run ?n uncRe s ?c0 ?k1"
      unfolding devRe_def using True by (simp add: run.simps(6) run_driveRe)
    show ?thesis
    proof (cases "unc_of s = []")
      case e: True
      have "run ?n uncRe s ?c0 ?k1 = None"
      proof (cases "2 \<le> length (takeWhile is_sep s)
         \<and> takeWhile non_sep (drop 2 s) \<noteq> []
         \<and> takeWhile is_sep (dropWhile non_sep (drop 2 s)) \<noteq> []")
        case False
        then show ?thesis unfolding run_uncRe by auto
      next
        case h: True
        with e have "takeWhile non_sep ?s4 = []"
          by (simp add: unc_of_def Let_def split: if_splits)
        then have "rep_top nonsep None ?s4 = 0"
          by (simp add: rep_top_def)
        then have "run ?n (Rep nonsep 1 None True) ?s4 ?c0 ?k1 = None"
          unfolding run_Rep_top by simp
        then show ?thesis
          unfolding run_uncRe using h by simp
      qed
      with u True e none show ?thesis
        unfolding m by (simp add: device_of_def)
    next
      case ne: False
      then have h: "2 \<le> length (takeWhile is_sep s)
         \<and> takeWhile non_sep (drop 2 s) \<noteq> []
         \<and> takeWhile is_sep (dropWhile non_sep (drop 2 s)) \<noteq> []"
        and sh: "takeWhile non_sep ?s4 \<noteq> []"
        and uo: "unc_of s = take 2 s @ takeWhile non_sep (drop 2 s)
            @ takeWhile is_sep (dropWhile non_sep (drop 2 s)) @ takeWhile non_sep ?s4"
        by (simp_all add: unc_of_def Let_def split: if_splits)
      from device_of_prefix [of s] True ne obtain t where t: "s = unc_of s @ t"
        by (auto simp: device_of_def)
      have l2: "2 \<le> length s"
        using h length_takeWhile_le [of is_sep s] by linarith
      have "s = take 2 s @ takeWhile non_sep (drop 2 s)
            @ takeWhile is_sep (dropWhile non_sep (drop 2 s)) @ takeWhile non_sep ?s4
            @ dropWhile non_sep ?s4"
        by (metis append_take_drop_id takeWhile_dropWhile_id)
      with t uo have rest: "dropWhile non_sep ?s4 = t"
        by (metis append.assoc same_append_eq)
      have top: "rep_top nonsep None ?s4 = ?m"
        by (simp add: rep_top_def)
      have dr: "drop ?m ?s4 = t"
        using rest by (simp add: dropWhile_eq_drop)
      have lt: "length t < length s"
        using t ne by (metis length_append length_greater_0_conv less_add_same_cancel2)
      have tk: "take (length s - length t) s = unc_of s"
        using t by (metis append_eq_conv_conj diff_add_inverse2 length_append)
      have "run ?n (Rep nonsep 1 None True) ?s4 ?c0 ?k1 =
         Some (?n, [Some s, Some (unc_of s), opt (slash_of t), Some (drop (length (slash_of t)) t)])"
      proof (rule run_Rep_greedy_max)
        show "1 \<le> rep_top nonsep None ?s4"
          using sh by (simp add: top Suc_le_eq)
        show "?k1 (drop (rep_top nonsep None ?s4) ?s4) ?c0 =
          Some (?n, [Some s, Some (unc_of s), opt (slash_of t), Some (drop (length (slash_of t)) t)])"
          unfolding top dr using k1 [OF lt] tk by simp
      qed
      then have "run ?n uncRe s ?c0 ?k1 =
         Some (?n, [Some s, Some (unc_of s), opt (slash_of t), Some (drop (length (slash_of t)) t)])"
        unfolding run_uncRe using h by simp
      moreover have "drop (length (unc_of s)) s = t"
        using t by (metis append_eq_conv_conj)
      ultimately show ?thesis
        unfolding m u using True ne by (simp add: device_of_def opt_def)
    qed
  qed
qed

lemma exec_splitDeviceRe:
  "exec splitDeviceRe s =
     Some (0, length s, [Some s, opt (device_of s), opt (slash_of (drop (length (device_of s)) s)),
                      Some (drop (length (slash_of (drop (length (device_of s)) s)))
                              (drop (length (device_of s)) s))])"
proof -
  have "exec splitDeviceRe s = map_option (\<lambda>(e, c). (0, e, c)) (match_at splitDeviceRe s 0)"
    unfolding splitDeviceRe_body by (rule exec_anchored)
  then show ?thesis by (simp add: match_at_splitDeviceRe)
qed

lemma rep_top_le: "rep_top cl hi s \<le> length (takeWhile (in_class cl) s)"
  by (simp add: rep_top_def split: option.splits)

fun nogroup :: "regex \<Rightarrow> bool" where
  "nogroup (Group i r) = False"
| "nogroup (Seq r1 r2) = (nogroup r1 \<and> nogroup r2)"
| "nogroup (Alt r1 r2) = (nogroup r1 \<and> nogroup r2)"
| "nogroup (Opt r) = nogroup r"
| "nogroup r = True"

fun reads :: "regex \<Rightarrow> char \<Rightarrow> bool" where
  "reads (Chr cl) x = in_class cl x"
| "reads (Rep cl lo hi g) x = in_class cl x"
| "reads (Seq r1 r2) x = (reads r1 x \<or> reads r2 x)"
| "reads (Alt r1 r2) x = (reads r1 x \<or> reads r2 x)"
| "reads (Opt r) x = reads r x"
| "reads (Group i r) x = reads r x"
| "reads r x = False"

lemma set_take_takeWhile:
  assumes "j \<le> length (takeWhile P s)"
  shows "\<forall>x \<in> set (take j s). P x"
proof -
  have "take j s = take j (takeWhile P s @ dropWhile P s)"
    by simp
  also have "\<dots> = take j (takeWhile P s)"
    using assms by (simp del: takeWhile_dropWhile_id)
  finally have "set (take j s) \<subseteq> set (takeWhile P s)"
    by (simp add: set_take_subset)
  then show ?thesis
    by (auto dest: set_takeWhileD)
qed

lemma run_nogroup:
  "nogroup r \<Longrightarrow> run n r s c k = Some x \<Longrightarrow>
     \<exists>t s'. s = t @ s' \<and> (\<forall>ch \<in> set t. reads r ch) \<and> k s' c = Some x"
proof (induction r arbitrary: s k)
  case (Chr cl)
  show ?case
  proof (cases s)
    case Nil
    with Chr show ?thesis by (simp add: run_basic)
  next
    case (Cons a list)
    with Chr have "in_class cl a \<and> k list c = Some x"
      by (simp add: run_basic split: if_splits)
    with Cons have "s = [a] @ list \<and> (\<forall>ch \<in> set [a]. reads (Chr cl) ch) \<and> k list c = Some x"
      by simp
    then show ?thesis by blast
  qed
next
  case Eps
  then have "s = [] @ s \<and> (\<forall>ch \<in> set []. reads Eps ch) \<and> k s c = Some x"
    by (simp add: run_basic)
  then show ?case by blast
next
  case Bol
  then have "s = [] @ s \<and> (\<forall>ch \<in> set []. reads Bol ch) \<and> k s c = Some x"
    by (simp add: run_basic split: if_splits)
  then show ?case by blast
next
  case Eol
  then have "s = [] @ s \<and> (\<forall>ch \<in> set []. reads Eol ch) \<and> k s c = Some x"
    by (simp add: run_basic split: if_splits)
  then show ?case by blast
next
  case (Seq r1 r2)
  from Seq.prems have ng: "nogroup r1" "nogroup r2" by simp_all
  from Seq.prems(2) have "run n r1 s c (\<lambda>s' c'. run n r2 s' c' k) = Some x"
    by (simp add: run_basic)
  from Seq.IH(1) [OF ng(1) this] obtain t1 s1 where
    a: "s = t1 @ s1" "\<forall>ch \<in> set t1. reads r1 ch" "run n r2 s1 c k = Some x"
    by blast
  from Seq.IH(2) [OF ng(2) a(3)] obtain t2 s2 where
    b: "s1 = t2 @ s2" "\<forall>ch \<in> set t2. reads r2 ch" "k s2 c = Some x"
    by blast
  from a b have "s = (t1 @ t2) @ s2 \<and> (\<forall>ch \<in> set (t1 @ t2). reads (Seq r1 r2) ch) \<and> k s2 c = Some x"
    by auto
  then show ?case by blast
next
  case (Alt r1 r2)
  from Alt.prems have ng: "nogroup r1" "nogroup r2" by simp_all
  from Alt.prems(2) have "run n r1 s c k = Some x \<or> run n r2 s c k = Some x"
    by (simp add: run_basic split: option.splits)
  then show ?case
  proof
    assume "run n r1 s c k = Some x"
    from Alt.IH(1) [OF ng(1) this] show ?thesis by auto
  next
    assume "run n r2 s c k = Some x"
    from Alt.IH(2) [OF ng(2) this] show ?thesis by auto
  qed
next
  case (Rep cl lo hi g)
  from Rep.prems(2) obtain j where
    jm: "j \<in> set (if g then rev [lo ..< Suc (rep_top cl hi s)] else [lo ..< Suc (rep_top cl hi s)])"
    and jk: "k (drop j s) c = Some x"
    unfolding run_Rep_top by (blast dest: first_some_SomeD)
  from jm have "j \<le> rep_top cl hi s"
    by (auto split: if_splits)
  with jk have j: "j \<le> rep_top cl hi s" "k (drop j s) c = Some x"
    by simp_all
  from j(1) have "j \<le> length (takeWhile (in_class cl) s)"
    using rep_top_le [of cl hi s] by simp
  from set_take_takeWhile [OF this] j(2)
  have "s = take j s @ drop j s \<and> (\<forall>ch \<in> set (take j s). reads (Rep cl lo hi g) ch)
      \<and> k (drop j s) c = Some x"
    by simp
  then show ?case by blast
next
  case (Opt r)
  from Opt.prems have ng: "nogroup r" by simp
  let ?k = "\<lambda>s' c'. if length s' = length s then None else k s' c'"
  show ?case
  proof (cases "run n r s c ?k")
    case None
    with Opt.prems(2) have "k s c = Some x" by (simp add: run_basic)
    then have "s = [] @ s \<and> (\<forall>ch \<in> set []. reads (Opt r) ch) \<and> k s c = Some x" by simp
    then show ?thesis by blast
  next
    case (Some y)
    with Opt.prems(2) have "run n r s c ?k = Some x" by (simp add: run_basic)
    from Opt.IH [OF ng this] show ?thesis by (auto split: if_splits)
  qed
next
  case (Group i r)
  then show ?case by simp
qed

definition stemRe :: "cclass \<Rightarrow> regex" where
  "stemRe nc = Alt (Rep (Set [C (CHR ''.'')]) 1 (Some 2) True) (Alt (Rep nc 1 None False) Eps)"

definition extRe :: "cclass \<Rightarrow> regex" where
  "extRe ec = Alt (Seq (Lit (CHR ''.'')) (Rep ec 0 None True)) Eps"

definition restRe :: "cclass \<Rightarrow> regex" where
  "restRe sc = Seq (Rep sc 0 None True) Eol"

definition baseRestRe :: "cclass \<Rightarrow> cclass \<Rightarrow> cclass \<Rightarrow> nat \<Rightarrow> nat \<Rightarrow> regex" where
  "baseRestRe sc nc ec gb ge =
     Seq (Group gb (Seq (stemRe nc) (Group ge (extRe ec)))) (restRe sc)"

definition dirBaseRe :: "cclass \<Rightarrow> cclass \<Rightarrow> cclass \<Rightarrow> nat \<Rightarrow> nat \<Rightarrow> nat \<Rightarrow> regex" where
  "dirBaseRe sc nc ec gd gb ge =
     Seq (Group gd (Rep Any 0 None False)) (baseRestRe sc nc ec gb ge)"

lemma first_some_not_None:
  "x \<in> set xs \<Longrightarrow> f x \<noteq> None \<Longrightarrow> first_some f xs \<noteq> None"
  by (induction xs) (auto split: option.splits)

lemma run_Alt_right:
  "run n r2 s c k \<noteq> None \<Longrightarrow> run n (Alt r1 r2) s c k \<noteq> None"
  by (simp add: run_basic split: option.splits)

lemma run_Alt_left:
  "run n r1 s c k \<noteq> None \<Longrightarrow> run n (Alt r1 r2) s c k \<noteq> None"
  by (auto simp add: run_basic split: option.splits)

lemma run_Rep_member:
  assumes "lo \<le> j" and "j \<le> rep_top cl hi s" and "k (drop j s) c \<noteq> None"
  shows "run n (Rep cl lo hi g) s c k \<noteq> None"
proof -
  from assms(1,2) have "j \<in> set (if g then rev [lo ..< Suc (rep_top cl hi s)]
      else [lo ..< Suc (rep_top cl hi s)])"
    by (auto simp del: upt_Suc)
  from first_some_not_None [OF this, of "\<lambda>j. k (drop j s) c"] assms(3)
  show ?thesis unfolding run_Rep_top by simp
qed

lemma run_restRe:
  "run n (restRe sc) t c k = (if \<forall>x \<in> set t. in_class sc x then k [] c else None)"
proof -
  have top: "rep_top sc None t = length (takeWhile (in_class sc) t)"
    by (simp add: rep_top_def)
  have "run n (Rep sc 0 None True) t c (\<lambda>s' c'. run n Eol s' c' k) =
      (if 0 \<le> rep_top sc None t then run n Eol (drop (rep_top sc None t) t) c k else None)"
  proof (rule run_Rep_forced)
    fix j assume "j < rep_top sc None t"
    then have "j < length t"
      using length_takeWhile_le [of "in_class sc" t] by (simp add: top)
    then show "run n Eol (drop j t) c k = None"
      by (simp add: run_basic)
  qed
  then have e: "run n (restRe sc) t c k = run n Eol (dropWhile (in_class sc) t) c k"
    unfolding restRe_def
    by (simp add: run.simps(5) top dropWhile_eq_drop [symmetric])
  show ?thesis
  proof (cases "\<forall>x \<in> set t. in_class sc x")
    case True
    then have d: "dropWhile (in_class sc) t = []" by simp
    show ?thesis unfolding e d using True by (simp add: run_basic)
  next
    case False
    then show ?thesis unfolding e by (auto simp add: run_basic)
  qed
qed

text \<open>What the base part and the rest match: a segment free of separators, then separators.\<close>

lemma run_baseRestRe_sound:
  assumes nc: "\<And>x. in_class nc x \<longleftrightarrow> \<not> in_class sc x"
    and ec: "\<And>x. in_class ec x \<Longrightarrow> \<not> in_class sc x"
    and dot: "\<not> in_class sc (CHR ''.'')"
    and r: "run n (baseRestRe sc nc ec gb ge) t c k = Some x"
  shows "\<exists>t1 t2 sl. t = t1 @ t2 @ sl \<and> (\<forall>x \<in> set (t1 @ t2). \<not> in_class sc x)
      \<and> (\<forall>x \<in> set sl. in_class sc x)
      \<and> k [] (c[ge := Some t2, gb := Some (t1 @ t2)]) = Some x"
proof -
  let ?k2 = "\<lambda>s1 s2 c2. run n (restRe sc) s2
      (c2[ge := Some (take (length s1 - length s2) s1), gb := Some (take (length t - length s2) t)]) k"
  let ?k1 = "\<lambda>s1 c1. run n (extRe ec) s1 c1 (?k2 s1)"
  have "run n (baseRestRe sc nc ec gb ge) t c k = run n (stemRe nc) t c ?k1"
    by (simp add: baseRestRe_def run_basic)
  with r have 1: "run n (stemRe nc) t c ?k1 = Some x" by simp
  have ng1: "nogroup (stemRe nc)" by (simp add: stemRe_def)
  have ng2: "nogroup (extRe ec)" by (simp add: extRe_def)
  have rd1: "\<And>ch. reads (stemRe nc) ch \<Longrightarrow> \<not> in_class sc ch"
    using nc dot by (auto simp: stemRe_def)
  have rd2: "\<And>ch. reads (extRe ec) ch \<Longrightarrow> \<not> in_class sc ch"
    using ec dot by (auto simp: extRe_def)
  from run_nogroup [OF ng1 1] obtain t1 s1 where
    a: "t = t1 @ s1" "\<forall>ch \<in> set t1. reads (stemRe nc) ch" "?k1 s1 c = Some x"
    by blast
  from run_nogroup [OF ng2 a(3)] obtain t2 s2 where
    b: "s1 = t2 @ s2" "\<forall>ch \<in> set t2. reads (extRe ec) ch" "?k2 s1 s2 c = Some x"
    by blast
  from b(3) have c: "\<forall>x \<in> set s2. in_class sc x"
    and d: "k [] (c[ge := Some (take (length s1 - length s2) s1),
                   gb := Some (take (length t - length s2) t)]) = Some x"
    by (simp_all add: run_restRe split: if_splits)
  have "take (length s1 - length s2) s1 = t2" using b(1) by simp
  moreover have "take (length t - length s2) t = t1 @ t2" using a(1) b(1) by simp
  ultimately have "k [] (c[ge := Some t2, gb := Some (t1 @ t2)]) = Some x"
    using d by simp
  moreover have "t = t1 @ t2 @ s2" using a(1) b(1) by simp
  moreover have "\<forall>x \<in> set (t1 @ t2). \<not> in_class sc x"
    using a(2) b(2) rd1 rd2 by auto
  ultimately show ?thesis using c by blast
qed

lemma run_baseRestRe_exists:
  assumes nc: "\<And>x. in_class nc x \<longleftrightarrow> \<not> in_class sc x"
    and b: "\<forall>x \<in> set b. \<not> in_class sc x" and sl: "\<forall>x \<in> set sl. in_class sc x"
    and k: "\<And>c'. k [] c' \<noteq> None"
  shows "run n (baseRestRe sc nc ec gb ge) (b @ sl) c k \<noteq> None"
proof -
  let ?t = "b @ sl"
  let ?k2 = "\<lambda>s1 s2 c2. run n (restRe sc) s2
      (c2[ge := Some (take (length s1 - length s2) s1), gb := Some (take (length ?t - length s2) ?t)]) k"
  let ?k1 = "\<lambda>s1 c1. run n (extRe ec) s1 c1 (?k2 s1)"
  have u: "run n (baseRestRe sc nc ec gb ge) ?t c k = run n (stemRe nc) ?t c ?k1"
    by (simp add: baseRestRe_def run_basic)
  have "?k2 sl sl c \<noteq> None"
    using sl k by (simp add: run_restRe)
  then have e: "?k1 sl c \<noteq> None"
    unfolding extRe_def by (intro run_Alt_right) (simp add: run_basic)
  have tw: "takeWhile (in_class nc) ?t = b"
  proof -
    have "takeWhile (in_class nc) ?t = b @ takeWhile (in_class nc) sl"
      using b nc by (simp add: takeWhile_append2)
    moreover have "takeWhile (in_class nc) sl = []"
      using sl nc by (cases sl) simp_all
    ultimately show ?thesis by simp
  qed
  have "run n (stemRe nc) ?t c ?k1 \<noteq> None"
  proof (cases "b = []")
    case True
    with e show ?thesis
      unfolding stemRe_def by (intro run_Alt_right) (simp add: run_basic)
  next
    case False
    have "run n (Rep nc 1 None False) ?t c ?k1 \<noteq> None"
    proof (rule run_Rep_member [where j = "length b"])
      show "1 \<le> length b" using False by (simp add: Suc_le_eq)
      show "length b \<le> rep_top nc None ?t" by (simp add: rep_top_def tw)
      show "?k1 (drop (length b) ?t) c \<noteq> None" using e by simp
    qed
    then show ?thesis
      unfolding stemRe_def by (intro run_Alt_right run_Alt_left)
  qed
  with u show ?thesis by simp
qed

definition strip_seps :: "(char \<Rightarrow> bool) \<Rightarrow> string \<Rightarrow> string" where
  "strip_seps P s = rev (dropWhile P (rev s))"

definition trail_seps :: "(char \<Rightarrow> bool) \<Rightarrow> string \<Rightarrow> string" where
  "trail_seps P s = rev (takeWhile P (rev s))"

definition last_seg :: "(char \<Rightarrow> bool) \<Rightarrow> string \<Rightarrow> string" where
  "last_seg P s = rev (takeWhile (\<lambda>c. \<not> P c) (rev (strip_seps P s)))"

definition dir_body :: "(char \<Rightarrow> bool) \<Rightarrow> string \<Rightarrow> string" where
  "dir_body P s = rev (dropWhile (\<lambda>c. \<not> P c) (rev (strip_seps P s)))"

lemma strip_trail: "strip_seps P s @ trail_seps P s = s"
proof -
  have "strip_seps P s @ trail_seps P s = rev (takeWhile P (rev s) @ dropWhile P (rev s))"
    unfolding strip_seps_def trail_seps_def rev_append ..
  then show ?thesis by simp
qed

lemma dir_last: "dir_body P s @ last_seg P s = strip_seps P s"
proof -
  let ?r = "rev (strip_seps P s)"
  have "dir_body P s @ last_seg P s
      = rev (takeWhile (\<lambda>c. \<not> P c) ?r @ dropWhile (\<lambda>c. \<not> P c) ?r)"
    unfolding dir_body_def last_seg_def rev_append ..
  then show ?thesis by simp
qed

lemma path_decomp: "dir_body P s @ last_seg P s @ trail_seps P s = s"
proof -
  have "(dir_body P s @ last_seg P s) @ trail_seps P s = s"
    unfolding dir_last by (rule strip_trail)
  then show ?thesis by simp
qed

lemma last_seg_free: "\<forall>x \<in> set (last_seg P s). \<not> P x"
  by (auto simp: last_seg_def dest: set_takeWhileD)

lemma trail_seps_all: "\<forall>x \<in> set (trail_seps P s). P x"
  by (auto simp: trail_seps_def dest: set_takeWhileD)

lemma strip_seps_last: "strip_seps P s \<noteq> [] \<Longrightarrow> \<not> P (last (strip_seps P s))"
proof -
  assume a: "strip_seps P s \<noteq> []"
  then have "dropWhile P (rev s) \<noteq> []" by (simp add: strip_seps_def)
  then have "\<not> P (hd (dropWhile P (rev s)))" by (rule hd_dropWhile)
  moreover have "last (strip_seps P s) = hd (dropWhile P (rev s))"
    using a by (simp add: strip_seps_def last_rev)
  ultimately show ?thesis by simp
qed

lemma dir_body_last:
  assumes "dir_body P s \<noteq> []"
  shows "P (last (dir_body P s)) \<and> last_seg P s \<noteq> []"
proof -
  let ?r = "rev (strip_seps P s)"
  from assms have d: "dropWhile (\<lambda>c. \<not> P c) ?r \<noteq> []" by (simp add: dir_body_def)
  then have "\<not> \<not> P (hd (dropWhile (\<lambda>c. \<not> P c) ?r))" by (rule hd_dropWhile)
  moreover have "last (dir_body P s) = hd (dropWhile (\<lambda>c. \<not> P c) ?r)"
    using d by (simp add: dir_body_def last_rev)
  ultimately have 1: "P (last (dir_body P s))" by simp
  from d have ne: "strip_seps P s \<noteq> []" by auto
  then have "\<not> P (last (strip_seps P s))" by (rule strip_seps_last)
  then have "\<not> P (hd ?r)" using ne by (simp add: hd_rev)
  then have "takeWhile (\<lambda>c. \<not> P c) ?r \<noteq> []"
    using ne by (cases ?r) simp_all
  then have "last_seg P s \<noteq> []" by (simp add: last_seg_def)
  with 1 show ?thesis by simp
qed

lemma takeWhile_seg:
  assumes "\<forall>x \<in> set b. Q x" and "\<forall>x \<in> set sl. \<not> Q x"
  shows "takeWhile Q (b @ sl) = b"
proof -
  have "takeWhile Q (b @ sl) = b @ takeWhile Q sl"
    using assms(1) by (simp add: takeWhile_append2)
  moreover have "takeWhile Q sl = []"
    using assms(2) by (cases sl) simp_all
  ultimately show ?thesis by simp
qed

lemma seg_unique:
  assumes "b @ sl = b' @ sl'"
    and "\<forall>x \<in> set b. \<not> P x" and "\<forall>x \<in> set sl. P x"
    and "\<forall>x \<in> set b'. \<not> P x" and "\<forall>x \<in> set sl'. P x"
  shows "b = b'"
proof -
  have "takeWhile (\<lambda>c. \<not> P c) (b @ sl) = b"
    using assms(2,3) by (intro takeWhile_seg) simp_all
  moreover have "takeWhile (\<lambda>c. \<not> P c) (b' @ sl') = b'"
    using assms(4,5) by (intro takeWhile_seg) simp_all
  ultimately show ?thesis using assms(1) by simp
qed

lemma sep_then_seg_not_form:
  assumes "P x" and "B \<noteq> []" and "\<forall>y \<in> set B. \<not> P y"
  shows "dropWhile P (dropWhile (\<lambda>c. \<not> P c) (u @ x # B @ T)) \<noteq> []"
proof (induction u)
  case Nil
  from assms(2,3) have "dropWhile P (B @ T) \<noteq> []" by (cases B) simp_all
  with assms(1) show ?case by simp
next
  case (Cons a u)
  show ?case
  proof (cases "P a")
    case True
    have "\<not> (\<forall>y \<in> set (u @ x # B @ T). P y)"
      using assms(2,3) by (cases B) auto
    then have "dropWhile P (u @ x # B @ T) \<noteq> []" by simp
    with True show ?thesis by simp
  next
    case False
    with Cons show ?thesis by simp
  qed
qed

lemma seg_form_dropWhile:
  assumes "\<forall>x \<in> set b. \<not> P x" and "\<forall>x \<in> set sl. P x"
  shows "dropWhile P (dropWhile (\<lambda>c. \<not> P c) (b @ sl)) = []"
proof -
  have "dropWhile (\<lambda>c. \<not> P c) (b @ sl) = dropWhile (\<lambda>c. \<not> P c) sl"
    using assms(1) by (simp add: dropWhile_append2)
  also have "\<dots> = sl"
    using assms(2) by (cases sl) simp_all
  finally show ?thesis using assms(2) by simp
qed

lemma before_dir_body_not_form:
  assumes "j < length (dir_body P s)"
    and "drop j s = b @ sl" and "\<forall>x \<in> set b. \<not> P x" and "\<forall>x \<in> set sl. P x"
  shows False
proof -
  from assms(1) have ne: "dir_body P s \<noteq> []" by auto
  then obtain D x where Dx: "dir_body P s = D @ [x]"
    by (cases "dir_body P s" rule: rev_cases) auto
  from dir_body_last [OF ne] have px: "P x" and bne: "last_seg P s \<noteq> []"
    by (simp_all add: Dx)
  have j: "j \<le> length D" using assms(1) by (simp add: Dx)
  have "(D @ [x]) @ last_seg P s @ trail_seps P s = s"
    unfolding Dx [symmetric] by (rule path_decomp)
  then have s_eq: "D @ x # last_seg P s @ trail_seps P s = s" by simp
  have "drop j (D @ x # last_seg P s @ trail_seps P s)
      = drop j D @ x # last_seg P s @ trail_seps P s"
    using j by simp
  then have "drop j s = drop j D @ x # last_seg P s @ trail_seps P s"
    unfolding s_eq .
  with sep_then_seg_not_form [OF px bne last_seg_free, of "drop j D" "trail_seps P s"]
  have "dropWhile P (dropWhile (\<lambda>c. \<not> P c) (drop j s)) \<noteq> []" by simp
  moreover have "dropWhile P (dropWhile (\<lambda>c. \<not> P c) (drop j s)) = []"
    unfolding assms(2) using assms(3,4) by (rule seg_form_dropWhile)
  ultimately show False by simp
qed

lemma rep_top_Any: "rep_top Any None s = length s"
proof -
  have tw: "takeWhile (in_class Any) s = s"
    by simp
  show ?thesis
    by (simp only: rep_top_def option.case tw)
qed

lemma run_dirBaseRe:
  assumes nc: "\<And>x. in_class nc x \<longleftrightarrow> \<not> in_class sc x"
    and ec: "\<And>x. in_class ec x \<Longrightarrow> \<not> in_class sc x"
    and dot: "\<not> in_class sc (CHR ''.'')"
    and k: "\<And>c'. k [] c' = Some (n, c'[0 := Some w])"
  shows "\<exists>st e. last_seg (in_class sc) s = st @ e \<and>
     run n (dirBaseRe sc nc ec gd gb ge) s c k =
       Some (n, c[gd := Some (dir_body (in_class sc) s), ge := Some e,
                  gb := Some (last_seg (in_class sc) s), 0 := Some w])"
proof -
  let ?P = "in_class sc"
  let ?D = "dir_body ?P s" and ?B = "last_seg ?P s" and ?T = "trail_seps ?P s"
  let ?K = "\<lambda>s' c'. run n (baseRestRe sc nc ec gb ge) s'
      (c'[gd := Some (take (length s - length s') s)]) k"
  have u: "run n (dirBaseRe sc nc ec gd gb ge) s c k = run n (Rep Any 0 None False) s c ?K"
    by (simp add: dirBaseRe_def run_basic)
  have dec: "?D @ ?B @ ?T = s" by (rule path_decomp)
  have "drop (length ?D) (?D @ ?B @ ?T) = ?B @ ?T" by simp
  then have dr: "drop (length ?D) s = ?B @ ?T" unfolding dec .
  have "length (?D @ ?B @ ?T) = length ?D + length (?B @ ?T)" by simp
  then have len: "length s = length ?D + length (?B @ ?T)" unfolding dec .
  have "take (length ?D) (?D @ ?B @ ?T) = ?D" by simp
  then have "take (length ?D) s = ?D" unfolding dec .
  then have tk: "take (length s - length (?B @ ?T)) s = ?D" unfolding len by simp
  have kn: "\<And>c'. k [] c' \<noteq> None" by (simp add: k)
  have "run n (baseRestRe sc nc ec gb ge) (?B @ ?T) (c[gd := Some ?D]) k \<noteq> None"
    using nc last_seg_free trail_seps_all kn by (rule run_baseRestRe_exists)
  then obtain y where y: "run n (baseRestRe sc nc ec gb ge) (?B @ ?T) (c[gd := Some ?D]) k = Some y"
    by blast
  from run_baseRestRe_sound [OF nc ec dot y] obtain t1 t2 sl where
    f: "?B @ ?T = t1 @ t2 @ sl" "\<forall>x \<in> set (t1 @ t2). \<not> ?P x" "\<forall>x \<in> set sl. ?P x"
      "k [] (c[gd := Some ?D, ge := Some t2, gb := Some (t1 @ t2)]) = Some y"
    by blast
  have "?B @ ?T = (t1 @ t2) @ sl" using f(1) by simp
  from seg_unique [OF this last_seg_free trail_seps_all f(2,3)] have B: "?B = t1 @ t2" .
  from f(4) have yv: "y = (n, c[gd := Some ?D, ge := Some t2, gb := Some ?B, 0 := Some w])"
    unfolding k B by simp
  have top: "rep_top Any None s = length s"
    by (rule rep_top_Any)
  have r: "run n (Rep Any 0 None False) s c ?K = Some y"
  proof (rule run_Rep_lazy_first [where m = "length ?D"])
    show "0 \<le> length ?D" by simp
    show "length ?D \<le> rep_top Any None s"
      unfolding top len by simp
    show "?K (drop (length ?D) s) c = Some y"
      unfolding dr tk using y by simp
  next
    fix j assume "0 \<le> j" and j: "j < length ?D"
    show "?K (drop j s) c = None"
    proof (rule ccontr)
      assume "?K (drop j s) c \<noteq> None"
      then obtain z where "?K (drop j s) c = Some z" by blast
      from run_baseRestRe_sound [OF nc ec dot this] obtain a1 a2 al where
        g: "drop j s = a1 @ a2 @ al" "\<forall>x \<in> set (a1 @ a2). \<not> ?P x" "\<forall>x \<in> set al. ?P x"
        by blast
      have "drop j s = (a1 @ a2) @ al" using g(1) by simp
      from before_dir_body_not_form [OF j this g(2,3)] show False .
    qed
  qed
  have "run n (dirBaseRe sc nc ec gd gb ge) s c k =
       Some (n, c[gd := Some ?D, ge := Some t2, gb := Some ?B, 0 := Some w])"
    unfolding u r yv ..
  with B have "?B = t1 @ t2 \<and> run n (dirBaseRe sc nc ec gd gb ge) s c k =
       Some (n, c[gd := Some ?D, ge := Some t2, gb := Some ?B, 0 := Some w])"
    by simp
  then show ?thesis by (intro exI [of _ t1] exI [of _ t2])
qed

abbreviation is_slash :: "char \<Rightarrow> bool" where
  "is_slash \<equiv> in_class (Set [C (CHR ''/'')])"

lemma splitTailRe_body:
  "splitTailRe = \<lparr>body = Seq Bol
      (dirBaseRe sep nonsep (NotSet [C (CHR ''.''), C (CHR ''/''), C bsl]) 1 2 3), groups = 3\<rparr>"
  by (simp add: splitTailRe_def dirBaseRe_def baseRestRe_def stemRe_def extRe_def restRe_def)

lemma splitPathRe_body:
  "splitPathRe = \<lparr>body = Seq Bol (Seq
      (Group 1 (Alt (Rep (Set [C (CHR ''/'')]) 0 (Some 1) True) Eps))
      (dirBaseRe (Set [C (CHR ''/'')]) (NotSet [C (CHR ''/'')])
         (NotSet [C (CHR ''.''), C (CHR ''/'')]) 2 3 4)), groups = 4\<rparr>"
  by (simp add: splitPathRe_def dirBaseRe_def baseRestRe_def stemRe_def extRe_def restRe_def)

lemma exec_splitTailRe:
  "\<exists>st e. last_seg is_sep s = st @ e \<and>
     exec splitTailRe s =
       Some (0, length s, [Some s, Some (dir_body is_sep s), Some (last_seg is_sep s), Some e])"
proof -
  let ?ec = "NotSet [C (CHR ''.''), C (CHR ''/''), C bsl]"
  let ?kf = "\<lambda>s' c. Some (length s - length s', c[0 := Some (take (length s - length s' - 0) (drop 0 s))])"
  have "\<exists>st e. last_seg is_sep s = st @ e \<and>
     run (length s) (dirBaseRe sep nonsep ?ec 1 2 3) s [None, None, None, None] ?kf =
       Some (length s, [None, None, None, None][1 := Some (dir_body is_sep s), 3 := Some e,
                  2 := Some (last_seg is_sep s), 0 := Some s])"
    by (rule run_dirBaseRe) (simp_all add: sep_def nonsep_def)
  then obtain st e where e: "last_seg is_sep s = st @ e"
    and r: "run (length s) (dirBaseRe sep nonsep ?ec 1 2 3) s [None, None, None, None] ?kf =
       Some (length s, [Some s, Some (dir_body is_sep s), Some (last_seg is_sep s), Some e])"
    by (auto simp: numeral_eq_Suc)
  have c0: "replicate 4 None = ([None, None, None, None] :: captures)"
    by (simp add: numeral_eq_Suc)
  have "match_at splitTailRe s 0 =
      Some (length s, [Some s, Some (dir_body is_sep s), Some (last_seg is_sep s), Some e])"
    unfolding splitTailRe_body match_at_def using r
    by (simp add: run.simps(3,5) c0)
  moreover have "exec splitTailRe s = map_option (\<lambda>(e, c). (0, e, c)) (match_at splitTailRe s 0)"
    unfolding splitTailRe_body by (rule exec_anchored)
  ultimately have "exec splitTailRe s =
       Some (0, length s, [Some s, Some (dir_body is_sep s), Some (last_seg is_sep s), Some e])"
    by simp
  with e show ?thesis by blast
qed

definition posix_root :: "string \<Rightarrow> string" where
  "posix_root s = takeWhile is_slash (take 1 s)"

lemma exec_splitPathRe:
  "\<exists>st e. last_seg is_slash (drop (length (posix_root s)) s) = st @ e \<and>
     exec splitPathRe s =
       Some (0, length s, [Some s, Some (posix_root s),
         Some (dir_body is_slash (drop (length (posix_root s)) s)),
         Some (last_seg is_slash (drop (length (posix_root s)) s)), Some e])"
proof -
  let ?sc = "Set [C (CHR ''/'')]"
  let ?nc = "NotSet [C (CHR ''/'')]"
  let ?ec = "NotSet [C (CHR ''.''), C (CHR ''/'')]"
  let ?c0 = "[None, None, None, None, None] :: captures"
  let ?r = "posix_root s"
  let ?t = "drop (length ?r) s"
  let ?kf = "\<lambda>s' c. Some (length s - length s', c[0 := Some (take (length s - length s' - 0) (drop 0 s))])"
  let ?K1 = "\<lambda>s' c'. run (length s) (dirBaseRe ?sc ?nc ?ec 2 3 4) s'
      (c'[1 := Some (take (length s - length s') s)]) ?kf"
  have top: "rep_top ?sc (Some 1) s = length ?r"
    by (cases s) (simp_all add: rep_top_def posix_root_def)
  have tk: "take (length s - length ?t) s = ?r"
    by (cases s) (simp_all add: posix_root_def)
  have "\<exists>st e. last_seg is_slash ?t = st @ e \<and>
     run (length s) (dirBaseRe ?sc ?nc ?ec 2 3 4) ?t (?c0[1 := Some ?r]) ?kf =
       Some (length s, ?c0[1 := Some ?r, 2 := Some (dir_body is_slash ?t), 4 := Some e,
                  3 := Some (last_seg is_slash ?t), 0 := Some s])"
    by (rule run_dirBaseRe) simp_all
  then obtain st e where e: "last_seg is_slash ?t = st @ e"
    and r: "run (length s) (dirBaseRe ?sc ?nc ?ec 2 3 4) ?t (?c0[1 := Some ?r]) ?kf =
       Some (length s, [Some s, Some ?r, Some (dir_body is_slash ?t),
                        Some (last_seg is_slash ?t), Some e])"
    by (auto simp: numeral_eq_Suc)
  have k1: "?K1 (drop (rep_top ?sc (Some 1) s) s) ?c0 =
       Some (length s, [Some s, Some ?r, Some (dir_body is_slash ?t),
                        Some (last_seg is_slash ?t), Some e])"
    unfolding top tk using r by simp
  have g: "run (length s) (Rep ?sc 0 (Some 1) True) s ?c0 ?K1 =
       Some (length s, [Some s, Some ?r, Some (dir_body is_slash ?t),
                        Some (last_seg is_slash ?t), Some e])"
    using _ k1 by (rule run_Rep_greedy_max) simp
  have c0: "replicate 5 None = ?c0"
    by (simp add: numeral_eq_Suc)
  have "match_at splitPathRe s 0 =
      Some (length s, [Some s, Some ?r, Some (dir_body is_slash ?t),
                        Some (last_seg is_slash ?t), Some e])"
    unfolding splitPathRe_body match_at_def using g
    by (simp add: run.simps(3,5,6,9) c0)
  moreover have "exec splitPathRe s = map_option (\<lambda>(e, c). (0, e, c)) (match_at splitPathRe s 0)"
    unfolding splitPathRe_body by (rule exec_anchored)
  ultimately have "exec splitPathRe s =
       Some (0, length s, [Some s, Some ?r, Some (dir_body is_slash ?t),
                        Some (last_seg is_slash ?t), Some e])"
    by simp
  with e show ?thesis by blast
qed

section \<open>\<open>statPath\<close>, \<open>splitPath\<close> and \<open>parse\<close> on an arbitrary string\<close>

definition after_device :: "string \<Rightarrow> string" where
  "after_device s = drop (length (device_of s)) s"

definition tail_of :: "string \<Rightarrow> string" where
  "tail_of s = drop (length (slash_of (after_device s))) (after_device s)"

lemma exec_splitDeviceRe':
  "exec splitDeviceRe s =
     Some (0, length s, [Some s, opt (device_of s), opt (slash_of (after_device s)),
                         Some (tail_of s)])"
  unfolding after_device_def tail_of_def by (rule exec_splitDeviceRe)

lemma statPath_eq:
  "statPath s = Inr \<lparr>device = device_of s, tail = Some (tail_of s),
     isUnc = (device_of s \<noteq> [] \<and> char_at (device_of s) 1 \<noteq> Some (CHR '':'')),
     isAbsolute = ((device_of s \<noteq> [] \<and> char_at (device_of s) 1 \<noteq> Some (CHR '':''))
                   \<or> slash_of (after_device s) \<noteq> [])\<rparr>"
  by (simp add: statPath_def exec_splitDeviceRe' Let_def numeral_eq_Suc)

lemma win32_splitPath_eq:
  "\<exists>st e. last_seg is_sep (tail_of s) = st @ e \<and>
     win32_splitPath s = Inr [Some (device_of s @ slash_of (after_device s)),
        Some (dir_body is_sep (tail_of s)), Some (last_seg is_sep (tail_of s)), Some e]"
proof -
  from exec_splitTailRe [of "tail_of s"] obtain st e where
    e: "last_seg is_sep (tail_of s) = st @ e"
    and x: "exec splitTailRe (tail_of s) = Some (0, length (tail_of s),
        [Some (tail_of s), Some (dir_body is_sep (tail_of s)),
         Some (last_seg is_sep (tail_of s)), Some e])"
    by blast
  have "win32_splitPath s = Inr [Some (device_of s @ slash_of (after_device s)),
        Some (dir_body is_sep (tail_of s)), Some (last_seg is_sep (tail_of s)), Some e]"
    by (simp add: win32_splitPath_def exec_splitDeviceRe' Let_def numeral_eq_Suc
        or_empty_def [of "Some _"] x)
  with e show ?thesis by blast
qed

lemma posix_splitPath_eq:
  "\<exists>st e. last_seg is_slash (drop (length (posix_root s)) s) = st @ e \<and>
     posix_splitPath s = Inr [Some (posix_root s),
         Some (dir_body is_slash (drop (length (posix_root s)) s)),
         Some (last_seg is_slash (drop (length (posix_root s)) s)), Some e]"
proof -
  from exec_splitPathRe [of s] obtain st e where
    e: "last_seg is_slash (drop (length (posix_root s)) s) = st @ e"
    and x: "exec splitPathRe s = Some (0, length s, [Some s, Some (posix_root s),
         Some (dir_body is_slash (drop (length (posix_root s)) s)),
         Some (last_seg is_slash (drop (length (posix_root s)) s)), Some e])"
    by blast
  have "posix_splitPath s = Inr [Some (posix_root s),
         Some (dir_body is_slash (drop (length (posix_root s)) s)),
         Some (last_seg is_slash (drop (length (posix_root s)) s)), Some e]"
    by (simp add: posix_splitPath_def x slice_from_def clamp_index_def)
  with e show ?thesis by blast
qed

lemma slice_minus_one: "slice s 0 (- 1) = butlast s"
proof -
  have "nat (max (int (length s) - 1) 0) = length s - 1"
    by (cases s) simp_all
  then show ?thesis
    by (simp add: slice_def clamp_index_def butlast_conv_take)
qed

lemma slice_name: "slice (st @ e) 0 (int (length (st @ e)) - int (length e)) = st"
  by (simp add: slice_def clamp_index_def)

lemma win32_parse_eq:
  "\<exists>st e. last_seg is_sep (tail_of s) = st @ e \<and>
     win32_parse (JStr s) = Inr \<lparr>root = Some (device_of s @ slash_of (after_device s)),
       dir = device_of s @ slash_of (after_device s) @ butlast (dir_body is_sep (tail_of s)),
       base = last_seg is_sep (tail_of s), ext = e, name = st\<rparr>"
proof -
  from win32_splitPath_eq [of s] obtain st e where
    e: "last_seg is_sep (tail_of s) = st @ e"
    and x: "win32_splitPath s = Inr [Some (device_of s @ slash_of (after_device s)),
        Some (dir_body is_sep (tail_of s)), Some (st @ e), Some e]"
    by auto
  have "win32_parse (JStr s) = Inr \<lparr>root = Some (device_of s @ slash_of (after_device s)),
       dir = device_of s @ slash_of (after_device s) @ butlast (dir_body is_sep (tail_of s)),
       base = st @ e, ext = e, name = st\<rparr>"
    by (simp add: win32_parse_def isString_def x numeral_eq_Suc to_string_def slice_minus_one
        slice_name [simplified])
  with e show ?thesis by auto
qed

lemma posix_parse_eq:
  "\<exists>st e. last_seg is_slash (drop (length (posix_root s)) s) = st @ e \<and>
     posix_parse (JStr s) = Inr \<lparr>root = Some (posix_root s),
       dir = posix_root s @ butlast (dir_body is_slash (drop (length (posix_root s)) s)),
       base = last_seg is_slash (drop (length (posix_root s)) s), ext = e, name = st\<rparr>"
proof -
  from posix_splitPath_eq [of s] obtain st e where
    e: "last_seg is_slash (drop (length (posix_root s)) s) = st @ e"
    and x: "posix_splitPath s = Inr [Some (posix_root s),
         Some (dir_body is_slash (drop (length (posix_root s)) s)), Some (st @ e), Some e]"
    by auto
  have "posix_parse (JStr s) = Inr \<lparr>root = Some (posix_root s),
       dir = posix_root s @ butlast (dir_body is_slash (drop (length (posix_root s)) s)),
       base = st @ e, ext = e, name = st\<rparr>"
    by (simp add: posix_parse_def isString_def x numeral_eq_Suc to_string_def or_empty_def
        slice_minus_one slice_name [simplified] Let_def)
  with e show ?thesis by auto
qed

text \<open>
  Claim C8. For every string, on each driver, \<open>parse\<close> returns a \<open>PathInfo\<close> whose
  \<open>base\<close> is its \<open>name\<close> followed by its \<open>ext\<close>.
\<close>

theorem parse_base_is_name_ext:
  "(\<exists>info. win32_parse (JStr p) = Inr info \<and> base info = name info @ ext info)
   \<and> (\<exists>info. posix_parse (JStr p) = Inr info \<and> base info = name info @ ext info)"
proof -
  from win32_parse_eq [of p] have "\<exists>info. win32_parse (JStr p) = Inr info \<and> base info = name info @ ext info"
    by auto
  moreover from posix_parse_eq [of p]
  have "\<exists>info. posix_parse (JStr p) = Inr info \<and> base info = name info @ ext info"
    by auto
  ultimately show ?thesis by simp
qed

text \<open>
  Claim C9. For every string the patterns of both drivers match, \<open>splitPath\<close> yields four
  components, and \<open>parse\<close> returns a \<open>PathInfo\<close>: the branch that rejects a path that
  does not decompose into four components is never taken for a string.
\<close>

theorem parse_never_rejects_a_string:
  "exec splitDeviceRe p \<noteq> None \<and> exec splitTailRe p \<noteq> None \<and> exec splitPathRe p \<noteq> None
   \<and> (\<exists>parts. win32_splitPath p = Inr parts \<and> length parts = 4)
   \<and> (\<exists>parts. posix_splitPath p = Inr parts \<and> length parts = 4)
   \<and> (\<exists>info. win32_parse (JStr p) = Inr info)
   \<and> (\<exists>info. posix_parse (JStr p) = Inr info)"
proof -
  have "exec splitDeviceRe p \<noteq> None"
    by (simp add: exec_splitDeviceRe)
  moreover have "exec splitTailRe p \<noteq> None"
    using exec_splitTailRe [of p] by auto
  moreover have "exec splitPathRe p \<noteq> None"
    using exec_splitPathRe [of p] by auto
  moreover have "\<exists>parts. win32_splitPath p = Inr parts \<and> length parts = 4"
    using win32_splitPath_eq [of p] by auto
  moreover have "\<exists>parts. posix_splitPath p = Inr parts \<and> length parts = 4"
    using posix_splitPath_eq [of p] by auto
  moreover have "\<exists>info. win32_parse (JStr p) = Inr info"
    using win32_parse_eq [of p] by auto
  moreover have "\<exists>info. posix_parse (JStr p) = Inr info"
    using posix_parse_eq [of p] by auto
  ultimately show ?thesis by blast
qed

section \<open>Separators, segments and anchored patterns of the Windows driver\<close>






declare split_loop.simps [simp del] replace_all_from.simps [simp del]

fun split_by :: "(char \<Rightarrow> bool) \<Rightarrow> string \<Rightarrow> string list" where
  "split_by P [] = [[]]"
| "split_by P (c # cs) =
     (if P c then [] # split_by P cs
      else (case split_by P cs of
              seg # segs \<Rightarrow> (c # seg) # segs
            | [] \<Rightarrow> [[c]]))"

definition tokens_by :: "(char \<Rightarrow> bool) \<Rightarrow> string \<Rightarrow> string list" where
  "tokens_by P s = filter (\<lambda>p. p \<noteq> []) (split_by P s)"

lemma split_by_not_Nil [simp]: "split_by P s \<noteq> []"
  by (induction s) (auto split: list.splits)







lemma tokens_by_Nil [simp]: "tokens_by P [] = []"
  by (simp add: tokens_by_def)




lemma normalizeArray_tokens_by:
  "normalizeArray (split_by P s) a = normalizeArray (tokens_by P s) a"
  by (simp add: tokens_by_def normalizeArray_filter)




lemma match_at_Bol_0:
  "match_at \<lparr>body = Seq Bol r, groups = g\<rparr> s 0 = match_at \<lparr>body = r, groups = g\<rparr> s 0"
  by (simp add: match_at_def run.simps(3,5))

lemma test_anchored:
  "test \<lparr>body = Seq Bol r, groups = g\<rparr> s \<longleftrightarrow> match_at \<lparr>body = r, groups = g\<rparr> s 0 \<noteq> None"
  unfolding test_def exec_anchored match_at_Bol_0 by simp

lemma replace_first_anchored:
  "replace_first \<lparr>body = Seq Bol r, groups = g\<rparr> repl s =
     (case match_at \<lparr>body = r, groups = g\<rparr> s 0 of
        None \<Rightarrow> s
      | Some (e, c) \<Rightarrow> repl @ drop e s)"
  unfolding replace_first_def exec_anchored match_at_Bol_0
  by (simp split: option.splits)

text \<open>A greedy run of separators at the end of a pattern takes every separator there is.\<close>

lemma match_at_rep_sep:
  assumes "q \<le> length s"
  shows "match_at \<lparr>body = Rep sep lo None True, groups = 0\<rparr> s q =
     (if lo \<le> length (takeWhile is_sep (drop q s))
      then Some (q + length (takeWhile is_sep (drop q s)), [Some (takeWhile is_sep (drop q s))])
      else None)"
proof -
  let ?t = "drop q s"
  let ?m = "length (takeWhile is_sep ?t)"
  let ?kf = "\<lambda>s' c. Some (length s - length s',
      c[0 := Some (take (length s - length s' - q) (drop q s))])"
  have top: "rep_top sep None ?t = ?m"
    by (simp add: rep_top_def)
  have m: "match_at \<lparr>body = Rep sep lo None True, groups = 0\<rparr> s q
      = run (length s) (Rep sep lo None True) ?t [None] ?kf"
    by (simp add: match_at_def)
  show ?thesis
  proof (cases "lo \<le> ?m")
    case False
    then have "run (length s) (Rep sep lo None True) ?t [None] ?kf = None"
      unfolding run_Rep_top top by simp
    with False show ?thesis unfolding m by simp
  next
    case True
    have le: "?m \<le> length ?t" by (rule length_takeWhile_le)
    then have e: "length s - length (drop ?m ?t) = q + ?m"
      using assms by simp
    have "take ?m ?t = takeWhile is_sep ?t"
      by (metis takeWhile_eq_take)
    then have k: "?kf (drop (rep_top sep None ?t) ?t) [None] =
        Some (q + ?m, [Some (takeWhile is_sep ?t)])"
      unfolding top e by simp
    have "run (length s) (Rep sep lo None True) ?t [None] ?kf =
        Some (q + ?m, [Some (takeWhile is_sep ?t)])"
      using _ k by (rule run_Rep_greedy_max) (use True in \<open>simp add: top\<close>)
    with True show ?thesis unfolding m by simp
  qed
qed


definition collapse_lead :: "string \<Rightarrow> string" where
  "collapse_lead s = (if 2 \<le> length (takeWhile is_sep s) then bsl # dropWhile is_sep s else s)"

lemma replace_first_leadTwoSepsRe: "replace_first leadTwoSepsRe [bsl] s = collapse_lead s"
  unfolding leadTwoSepsRe_def seqs.simps replace_first_anchored collapse_lead_def
  by (simp add: match_at_rep_sep dropWhile_eq_drop)

definition starts_unc :: "string \<Rightarrow> bool" where
  "starts_unc s \<longleftrightarrow>
     2 \<le> length (takeWhile is_sep s) \<and> (case drop 2 s of [] \<Rightarrow> False | x # u \<Rightarrow> \<not> is_sep x)"

lemma test_uncStartRe: "test uncStartRe s \<longleftrightarrow> starts_unc s"
proof -
  let ?kf = "\<lambda>s' c. Some (length s - length s',
      c[0 := Some (take (length s - length s' - 0) (drop 0 s))])"
  have t1: "rep_top sep (Some 2) s = min 2 (length (takeWhile is_sep s))"
    by (simp add: rep_top_def)
  have r1: "run (length s) (Rep sep 2 (Some 2) True) s [None]
        (\<lambda>s' c'. run (length s) (Chr nonsep) s' c' ?kf) =
      (if 2 \<le> length (takeWhile is_sep s)
       then run (length s) (Chr nonsep) (drop 2 s) [None] ?kf else None)"
    by (subst run_Rep_forced) (auto simp add: t1 min_def split: if_splits)
  have "test uncStartRe s \<longleftrightarrow>
      run (length s) (Rep sep 2 (Some 2) True) s [None]
        (\<lambda>s' c'. run (length s) (Chr nonsep) s' c' ?kf) \<noteq> None"
    unfolding uncStartRe_def seqs.simps test_anchored
    by (simp add: match_at_def run.simps(5))
  then show ?thesis
    unfolding r1 starts_unc_def
    by (auto simp add: run.simps(1) non_sep_iff split: list.splits)
qed

section \<open>Arguments that are not strings\<close>

lemma posix_join_loop_nonstring:
  assumes "\<not> isString v"
  shows "posix_join_loop (xs @ v # ys) acc =
     Inl (InvalidArgument ''Arguments to path.join must be strings'')"
  using assms by (induction xs arbitrary: acc) simp_all

lemma win32_join_filter_nonstring:
  assumes "\<not> isString v"
  shows "win32_join_filter (xs @ v # ys) =
     Inl (InvalidArgument ''Arguments to path.join must be strings'')"
  using assms by (induction xs) simp_all

lemma posix_resolve_loop_relative:
  assumes "\<forall>s \<in> set ss. \<not> posix_isAbsolute s"
  shows "\<exists>rp'. posix_resolve_loop (map JStr ss @ rest) rp False
     = posix_resolve_loop rest rp' False"
  using assms
proof (induction ss arbitrary: rp)
  case Nil
  show ?case by auto
next
  case (Cons s ss)
  then have na: "\<not> posix_isAbsolute s" and r: "\<forall>s \<in> set ss. \<not> posix_isAbsolute s"
    by simp_all
  from na have c: "char_at s 0 \<noteq> Some (CHR ''/'')"
    by (cases s) (simp_all add: posix_isAbsolute_def char_at_def)
  show ?case
  proof (cases "s = []")
    case True
    with Cons.IH [OF r, of rp] show ?thesis by (simp add: isString_def)
  next
    case False
    with Cons.IH [OF r, of "s @ ''/'' @ rp"] c show ?thesis by (simp add: isString_def)
  qed
qed

lemma win32_resolve_step_relative:
  assumes "win32_isAbsolute s = Inr False" and "\<not> resolvedAbsolute st"
  shows "\<exists>st'. win32_resolve_step (JStr s) st = Inr (st', False) \<and> \<not> resolvedAbsolute st'"
proof -
  from assms(1) obtain result where r: "statPath s = Inr result" and a: "\<not> isAbsolute result"
    by (cases "statPath s") (simp_all add: win32_isAbsolute_def)
  show ?thesis
    using assms(2) a by (simp add: win32_resolve_step_def isString_def r Let_def)
qed

lemma win32_resolve_loop_relative:
  assumes "\<forall>s \<in> set ss. win32_isAbsolute s = Inr False" and "\<not> resolvedAbsolute st"
  shows "\<exists>st'. \<not> resolvedAbsolute st' \<and>
     win32_resolve_loop d (map JStr ss @ v # rest) st = win32_resolve_loop d (v # rest) st'"
  using assms
proof (induction ss arbitrary: st)
  case Nil
  then show ?case by auto
next
  case (Cons s ss)
  then have na: "win32_isAbsolute s = Inr False"
    and r: "\<forall>s \<in> set ss. win32_isAbsolute s = Inr False"
    by simp_all
  from win32_resolve_step_relative [OF na Cons.prems(2)] obtain st1 where
    s1: "win32_resolve_step (JStr s) st = Inr (st1, False)" and a1: "\<not> resolvedAbsolute st1"
    by blast
  from Cons.IH [OF r a1] s1 show ?case by simp
qed

definition driver0 :: driver where
  "driver0 = \<lparr>cwd = [], env = Map.empty\<rparr>"

section \<open>\<open>normalize\<close> in closed form\<close>







lemma take2_seps:
  assumes "2 \<le> length (takeWhile is_sep s)"
  shows "\<forall>x \<in> set (take 2 s). is_sep x"
  using assms by (rule set_take_takeWhile)


definition is_unc :: "string \<Rightarrow> bool" where
  "is_unc s \<longleftrightarrow> drive_of s = [] \<and> unc_of s \<noteq> []"

definition is_abs :: "string \<Rightarrow> bool" where
  "is_abs s \<longleftrightarrow> is_unc s \<or> slash_of (after_device s) \<noteq> []"

lemma device_isUnc:
  "(device_of s \<noteq> [] \<and> char_at (device_of s) 1 \<noteq> Some (CHR '':'')) \<longleftrightarrow> is_unc s"
proof (cases "drive_of s = []")
  case False
  then have "char_at (drive_of s) 1 = Some (CHR '':'')"
    by (auto simp: drive_of_def char_at_def split: list.splits if_splits)
  with False show ?thesis by (simp add: device_of_def is_unc_def)
next
  case True
  show ?thesis
  proof (cases "unc_of s = []")
    case e: True
    with True show ?thesis by (simp add: device_of_def is_unc_def)
  next
    case ne: False
    then have c: "2 \<le> length (takeWhile is_sep s)"
      and u: "\<exists>r. unc_of s = take 2 s @ r"
      by (auto simp add: unc_of_def Let_def split: if_splits)
    from c have l: "2 \<le> length s"
      using length_takeWhile_le [of is_sep s] by linarith
    then obtain a b r where s: "s = a # b # r"
      by (cases s; cases "tl s") auto
    from take2_seps [OF c] s have "is_sep b" by simp
    then have "b \<noteq> CHR '':''" by (auto simp: sep_def)
    with u s have "char_at (unc_of s) 1 \<noteq> Some (CHR '':'')"
      by (auto simp: char_at_def)
    with True ne show ?thesis by (simp add: device_of_def is_unc_def)
  qed
qed

lemma statPath_eq2:
  "statPath s = Inr \<lparr>device = device_of s, tail = Some (tail_of s),
     isUnc = is_unc s, isAbsolute = is_abs s\<rparr>"
  unfolding statPath_eq device_isUnc is_abs_def ..

text \<open>The device that \<open>statPath\<close> finds at the start of a string.\<close>

definition stat_device :: "string \<Rightarrow> string" where
  "stat_device s = (case statPath s of Inl err \<Rightarrow> [] | Inr result \<Rightarrow> device result)"

lemma stat_device_eq: "stat_device s = device_of s"
  by (simp add: stat_device_def statPath_eq2)

lemma win32_isAbsolute_eq: "win32_isAbsolute s = Inr (is_abs s)"
  by (simp add: win32_isAbsolute_def statPath_eq2)






section \<open>The Windows \<open>join\<close> against its description\<close>

text \<open>
  The description of \<open>join\<close>, in its own words: the empty arguments are dropped, the
  rest is joined with a backslash, a leading run of two or more separators is collapsed
  to one unless the first argument that is left starts with exactly two separators followed
  by a character that is no separator, and the result is normalized.
\<close>

definition spec_win32_join :: "string list \<Rightarrow> error + string" where
  "spec_win32_join args =
     (let paths = filter (\<lambda>a. a \<noteq> []) args;
          joined = join_with [bsl] paths;
          intended_unc = (case paths of [] \<Rightarrow> False | f # rest \<Rightarrow> starts_unc f);
          joined1 = (if intended_unc then joined else collapse_lead joined)
      in win32_normalize joined1)"

lemma win32_join_filter_strings:
  "win32_join_filter (map JStr args) = Inr (filter (\<lambda>a. a \<noteq> []) args)"
  by (induction args) (simp_all add: isString_def)

lemma starts_unc_undefined: "\<not> starts_unc ''undefined''"
  by (simp add: starts_unc_def sep_def)

lemma win32_join_strings: "win32_join (map JStr args) = spec_win32_join args"
  unfolding win32_join_def spec_win32_join_def win32_join_filter_strings
  by (cases "filter (\<lambda>a. a \<noteq> []) args")
     (simp_all add: Let_def to_string_def test_uncStartRe replace_first_leadTwoSepsRe
        starts_unc_undefined)

lemma win32_join_server_share:
  "win32_join [JStr ''//server'', JStr ''share'']
     = Inr ([bsl, bsl] @ ''server'' @ [bsl] @ ''share'' @ [bsl])"
  by code_simp

text \<open>
  Claim C5, as the code has it. For every list of string arguments the Windows \<open>join\<close>
  returns what the description computes; \<open>join("//server", "share")\<close> is the UNC root
  \<open>two backslashes, server, backslash, share, backslash\<close>, with the separator that \<open>normalize\<close> puts after the device of an
  absolute path.
\<close>

theorem win32_join_meets_spec:
  "win32_join (map JStr args) = spec_win32_join args
   \<and> win32_join [JStr ''//server'', JStr ''share'']
       = Inr ([bsl, bsl] @ ''server'' @ [bsl] @ ''share'' @ [bsl])"
  using win32_join_strings win32_join_server_share by simp

text \<open>
  Claim C5 as stated fails on its example: the result ends with a backslash.
\<close>

theorem win32_join_server_share_trailing:
  "win32_join [JStr ''//server'', JStr ''share''] \<noteq> Inr ([bsl, bsl] @ ''server'' @ [bsl] @ ''share'')"
  using win32_join_server_share by simp

section \<open>The Windows \<open>relative\<close> against its description\<close>

text \<open>
  The description of \<open>relative\<close>, in its own words, on the two resolved paths: the
  segments are compared in lower case, one \<open>..\<close> is emitted for each segment of \<open>from\<close>
  that is left, and the segments of \<open>to\<close> that are left follow in their original case.
\<close>

definition spec_common_prefix_length :: "string list \<Rightarrow> string list \<Rightarrow> nat" where
  "spec_common_prefix_length xs ys = length (takeWhile (\<lambda>(x, y). x = y) (zip xs ys))"

definition spec_win32_relative :: "string \<Rightarrow> string \<Rightarrow> string" where
  "spec_win32_relative resolvedFrom resolvedTo =
     (let fromParts = trimArray (split_chr bsl (toLowerCase resolvedFrom));
          toPartsLower = trimArray (split_chr bsl (toLowerCase resolvedTo));
          toParts = trimArray (split_chr bsl resolvedTo);
          shared = spec_common_prefix_length fromParts toPartsLower
      in if shared = 0 then resolvedTo
         else join_with [bsl] (replicate (length fromParts - shared) ''..'' @ drop shared toParts))"

lemma samePartsLength_spec: "samePartsLength xs ys = spec_common_prefix_length xs ys"
  unfolding spec_common_prefix_length_def
  by (induction xs ys rule: samePartsLength.induct) simp_all

lemma slice_from_nat: "slice_from xs (int n) = drop n xs"
  by (simp add: slice_from_def clamp_index_def min_def)

lemma win32_resolve_step_string:
  "\<exists>st' brk. win32_resolve_step (JStr s) st = Inr (st', brk)"
  by (auto simp add: win32_resolve_step_def isString_def statPath_eq2 Let_def)

lemma win32_resolve_fallback_string: "\<exists>s. win32_resolve_fallback d st = JStr s"
  by (simp add: win32_resolve_fallback_def split: option.splits)

lemma win32_resolve_loop_strings:
  "\<exists>st'. win32_resolve_loop d (map JStr ss) st = Inr st'"
proof (induction ss arbitrary: st)
  case Nil
  from win32_resolve_fallback_string [of d st] obtain s where
    f: "win32_resolve_fallback d st = JStr s" by blast
  from win32_resolve_step_string [of s st] obtain st' brk where
    "win32_resolve_step (JStr s) st = Inr (st', brk)" by blast
  with f show ?case by simp
next
  case (Cons s ss)
  from win32_resolve_step_string [of s st] obtain st1 brk where
    s1: "win32_resolve_step (JStr s) st = Inr (st1, brk)" by blast
  from Cons [of st1] s1 show ?case by simp
qed

lemma win32_resolve_strings: "\<exists>r. win32_resolve d (map JStr ss) = Inr r"
proof -
  let ?st0 = "\<lparr>resolvedDevice = [], resolvedTail = [], resolvedAbsolute = False,
              resolvedIsUnc = False\<rparr>"
  from win32_resolve_loop_strings [of d "rev ss" ?st0] obtain st' where
    "win32_resolve_loop d (rev (map JStr ss)) ?st0 = Inr st'"
    by (auto simp: rev_map)
  then show ?thesis
    unfolding win32_resolve_def by (simp add: Let_def)
qed

lemma win32_relative_example1:
  "win32_relative d ([CHR ''C'', CHR '':'', bsl] @ ''orandea'' @ [bsl] @ ''test'' @ [bsl] @ ''aaa'')
     ([CHR ''C'', CHR '':'', bsl] @ ''orandea'' @ [bsl] @ ''impl'' @ [bsl] @ ''bbb'')
   = Inr (''..'' @ [bsl] @ ''..'' @ [bsl] @ ''impl'' @ [bsl] @ ''bbb'')"
  by code_simp

lemma win32_relative_example2:
  "win32_relative d ([CHR ''c'', CHR '':'', bsl] @ ''a'')
     ([CHR ''C'', CHR '':'', bsl] @ ''a'' @ [bsl] @ ''b'') = Inr ''b''"
  by code_simp

text \<open>
  Claim C4, as the code has it. For all strings \<open>from\<close> and \<open>to\<close> the Windows
  \<open>relative\<close> resolves both and returns what the description computes from the two
  resolved paths; when no segment is shared the result is the resolved \<open>to\<close>. The two
  examples of the specification evaluate as it says, whatever \<open>cwd\<close> and \<open>env\<close> are.
\<close>

theorem win32_relative_meets_spec:
  "(\<exists>resolvedFrom resolvedTo.
      win32_resolve d [JStr from] = Inr resolvedFrom
      \<and> win32_resolve d [JStr to] = Inr resolvedTo
      \<and> win32_relative d from to = Inr (spec_win32_relative resolvedFrom resolvedTo))
   \<and> win32_relative d ([CHR ''C'', CHR '':'', bsl] @ ''orandea'' @ [bsl] @ ''test'' @ [bsl] @ ''aaa'')
         ([CHR ''C'', CHR '':'', bsl] @ ''orandea'' @ [bsl] @ ''impl'' @ [bsl] @ ''bbb'')
       = Inr (''..'' @ [bsl] @ ''..'' @ [bsl] @ ''impl'' @ [bsl] @ ''bbb'')
   \<and> win32_relative d ([CHR ''c'', CHR '':'', bsl] @ ''a'')
         ([CHR ''C'', CHR '':'', bsl] @ ''a'' @ [bsl] @ ''b'') = Inr ''b''"
proof -
  from win32_resolve_strings [of d "[from]"] obtain rf where
    rf: "win32_resolve d [JStr from] = Inr rf" by auto
  from win32_resolve_strings [of d "[to]"] obtain rt where
    rt: "win32_resolve d [JStr to] = Inr rt" by auto
  have "win32_relative d from to = Inr (spec_win32_relative rf rt)"
    unfolding win32_relative_def spec_win32_relative_def rf rt
    by (simp add: Let_def samePartsLength_spec slice_from_nat)
  with rf rt have "\<exists>resolvedFrom resolvedTo.
      win32_resolve d [JStr from] = Inr resolvedFrom
      \<and> win32_resolve d [JStr to] = Inr resolvedTo
      \<and> win32_relative d from to = Inr (spec_win32_relative resolvedFrom resolvedTo)"
    by blast
  with win32_relative_example1 win32_relative_example2 show ?thesis by blast
qed

text \<open>
  Claim C4 as stated fails where it says that \<open>to\<close> is returned unchanged: across two
  drives the result is the resolved path, not the argument.
\<close>

theorem win32_relative_returns_resolved_to:
  "win32_relative driver0 ([CHR ''C'', CHR '':'', bsl] @ ''a'')
     ([CHR ''D'', CHR '':'', bsl] @ ''b'' @ [bsl] @ ''..'' @ [bsl] @ ''c'')
     = Inr ([CHR ''D'', CHR '':'', bsl] @ ''c'')
   \<and> win32_relative driver0 ([CHR ''C'', CHR '':'', bsl] @ ''a'')
     ([CHR ''D'', CHR '':'', bsl] @ ''b'' @ [bsl] @ ''..'' @ [bsl] @ ''c'')
     \<noteq> Inr ([CHR ''D'', CHR '':'', bsl] @ ''b'' @ [bsl] @ ''..'' @ [bsl] @ ''c'')"
  by code_simp

section \<open>Where the scan of \<open>resolve\<close> stops\<close>

text \<open>
  The Windows scan leaves its loop early once it holds a device and an absolute path. The
  device it holds is the one of the last argument that has a device; an argument naming
  another device is passed over; the path is absolute once an argument that was not passed
  over is absolute.
\<close>

definition win32_resolve_stops :: "string list \<Rightarrow> bool" where
  "win32_resolve_stops ss =
     (case filter (\<lambda>s. stat_device s \<noteq> []) (rev ss) of
        [] \<Rightarrow> False
      | s # rest \<Rightarrow>
          (\<exists>t \<in> set ss. win32_isAbsolute t = Inr True \<and>
             (stat_device t = [] \<or> toLowerCase (stat_device t) = toLowerCase (stat_device s))))"

lemma posix_resolve_loop_done: "posix_resolve_loop xs rp True = Inr (rp, True)"
  by (cases xs) simp_all

lemma posix_resolve_loop_stops:
  assumes "\<exists>s \<in> set ss. posix_isAbsolute s"
  shows "posix_resolve_loop (map JStr ss @ rest) rp ab = posix_resolve_loop (map JStr ss @ rest') rp ab"
  using assms
proof (induction ss arbitrary: rp ab)
  case Nil
  then show ?case by simp
next
  case (Cons s ss)
  have c: "(char_at s 0 = Some (CHR ''/'')) = posix_isAbsolute s"
    by (cases s) (simp_all add: posix_isAbsolute_def char_at_def)
  show ?case
  proof (cases "posix_isAbsolute s")
    case True
    then have "s \<noteq> []" by (auto simp: posix_isAbsolute_def)
    with True show ?thesis by (simp add: isString_def c posix_resolve_loop_done)
  next
    case False
    with Cons.prems have "\<exists>s \<in> set ss. posix_isAbsolute s" by simp
    from Cons.IH [OF this] False show ?thesis by (simp add: isString_def c)
  qed
qed

text \<open>The two flags of the Windows scan along a list of strings, taken in scan order.\<close>

fun scan_stops :: "string \<Rightarrow> bool \<Rightarrow> string list \<Rightarrow> bool" where
  "scan_stops dv ab [] = False"
| "scan_stops dv ab (s # ss) =
     (if device_of s \<noteq> [] \<and> dv \<noteq> [] \<and> toLowerCase (device_of s) \<noteq> toLowerCase dv
      then scan_stops dv ab ss
      else if (if dv = [] then device_of s else dv) \<noteq> [] \<and> (ab \<or> is_abs s) then True
      else scan_stops (if dv = [] then device_of s else dv) (ab \<or> is_abs s) ss)"

lemma win32_resolve_step_flags:
  assumes "resolvedDevice st = [] \<or> \<not> resolvedAbsolute st"
  shows "\<exists>st'. win32_resolve_step (JStr s) st = Inr (st',
        \<not> (device_of s \<noteq> [] \<and> resolvedDevice st \<noteq> []
            \<and> toLowerCase (device_of s) \<noteq> toLowerCase (resolvedDevice st))
        \<and> (if resolvedDevice st = [] then device_of s else resolvedDevice st) \<noteq> []
        \<and> (resolvedAbsolute st \<or> is_abs s))
     \<and> resolvedDevice st' =
         (if device_of s \<noteq> [] \<and> resolvedDevice st \<noteq> []
            \<and> toLowerCase (device_of s) \<noteq> toLowerCase (resolvedDevice st)
          then resolvedDevice st
          else if resolvedDevice st = [] then device_of s else resolvedDevice st)
     \<and> resolvedAbsolute st' =
         (if device_of s \<noteq> [] \<and> resolvedDevice st \<noteq> []
            \<and> toLowerCase (device_of s) \<noteq> toLowerCase (resolvedDevice st)
          then resolvedAbsolute st
          else (resolvedAbsolute st \<or> is_abs s))"
proof (cases "s = []")
  case True
  have "device_of [] = []" "\<not> is_abs []"
    by (simp_all add: device_of_def drive_of_def unc_of_def is_abs_def is_unc_def
        slash_of_def after_device_def)
  with True assms show ?thesis
    by (auto simp add: win32_resolve_step_def isString_def)
next
  case False
  with assms show ?thesis
    by (auto simp add: win32_resolve_step_def isString_def statPath_eq2 Let_def)
qed

lemma win32_resolve_loop_scan:
  assumes "resolvedDevice st = [] \<or> \<not> resolvedAbsolute st"
  shows "(scan_stops (resolvedDevice st) (resolvedAbsolute st) ss \<longrightarrow>
            win32_resolve_loop d (map JStr ss @ rest) st
              = win32_resolve_loop d (map JStr ss @ rest') st)
     \<and> (\<not> scan_stops (resolvedDevice st) (resolvedAbsolute st) ss \<longrightarrow>
            (\<exists>st'. win32_resolve_loop d (map JStr ss @ v # rest) st
              = win32_resolve_loop d (v # rest) st'))"
  using assms
proof (induction ss arbitrary: st)
  case Nil
  show ?case by auto
next
  case (Cons s ss)
  from win32_resolve_step_flags [OF Cons.prems, of s] obtain st' brk where
    s: "win32_resolve_step (JStr s) st = Inr (st', brk)"
    and b: "brk = (\<not> (device_of s \<noteq> [] \<and> resolvedDevice st \<noteq> []
            \<and> toLowerCase (device_of s) \<noteq> toLowerCase (resolvedDevice st))
        \<and> (if resolvedDevice st = [] then device_of s else resolvedDevice st) \<noteq> []
        \<and> (resolvedAbsolute st \<or> is_abs s))"
    and dv: "resolvedDevice st' =
         (if device_of s \<noteq> [] \<and> resolvedDevice st \<noteq> []
            \<and> toLowerCase (device_of s) \<noteq> toLowerCase (resolvedDevice st)
          then resolvedDevice st
          else if resolvedDevice st = [] then device_of s else resolvedDevice st)"
    and ab: "resolvedAbsolute st' =
         (if device_of s \<noteq> [] \<and> resolvedDevice st \<noteq> []
            \<and> toLowerCase (device_of s) \<noteq> toLowerCase (resolvedDevice st)
          then resolvedAbsolute st
          else (resolvedAbsolute st \<or> is_abs s))"
    by blast
  show ?case
  proof (cases brk)
    case True
    with b have "scan_stops (resolvedDevice st) (resolvedAbsolute st) (s # ss)" by auto
    with True s show ?thesis by (simp del: scan_stops.simps)
  next
    case False
    with b dv ab Cons.prems have i: "resolvedDevice st' = [] \<or> \<not> resolvedAbsolute st'"
      by (auto split: if_splits)
    from False b have e: "scan_stops (resolvedDevice st) (resolvedAbsolute st) (s # ss)
        = scan_stops (resolvedDevice st') (resolvedAbsolute st') ss"
      unfolding dv ab by (auto split: if_splits)
    from Cons.IH [OF i] False s show ?thesis unfolding e by (simp del: scan_stops.simps)
  qed
qed

lemma scan_stops_device:
  assumes "dv \<noteq> []"
  shows "scan_stops dv False ss \<longleftrightarrow>
     (\<exists>t \<in> set ss. is_abs t \<and> (device_of t = [] \<or> toLowerCase (device_of t) = toLowerCase dv))"
  using assms by (induction ss) auto

lemma scan_stops_no_device:
  "scan_stops [] ab ss \<longleftrightarrow>
     (case filter (\<lambda>s. device_of s \<noteq> []) ss of
        [] \<Rightarrow> False
      | s # rest \<Rightarrow> ab \<or> (\<exists>t \<in> set ss. is_abs t \<and>
             (device_of t = [] \<or> toLowerCase (device_of t) = toLowerCase (device_of s))))"
proof (induction ss arbitrary: ab)
  case Nil
  show ?case by simp
next
  case (Cons s ss)
  show ?case
  proof (cases "device_of s = []")
    case True
    then show ?thesis by (auto simp add: Cons.IH split: list.splits)
  next
    case False
    then show ?thesis by (auto simp add: scan_stops_device)
  qed
qed

lemma scan_stops_eq: "scan_stops [] False (rev ss) = win32_resolve_stops ss"
  unfolding scan_stops_no_device win32_resolve_stops_def stat_device_eq win32_isAbsolute_eq
  by (simp split: list.splits)

lemma posix_resolve_loop_strings:
  "\<exists>r. posix_resolve_loop (map JStr ss) rp ab = Inr r"
  by (induction ss arbitrary: rp ab) (auto simp add: isString_def)

lemma posix_resolve_strings: "\<exists>r. posix_resolve d (map JStr ss) = Inr r"
proof -
  from posix_resolve_loop_strings [of "rev ss @ [cwd d]" "[]" False] obtain r where
    "posix_resolve_loop (rev (map JStr ss) @ [JStr (cwd d)]) [] False = Inr r"
    by (auto simp: rev_map)
  then show ?thesis
    unfolding posix_resolve_def by (simp add: Let_def split_beta)
qed

text \<open>
  Claim C7, as the code has it. \<open>join\<close> examines every argument, so it signals the
  invalid-argument error whenever one of them is not a string. \<open>resolve\<close> examines its
  arguments from the last to the first, signals the error at the first value it reaches
  that is not a string, and never examines what stands left of the point where its scan
  stops. With strings to the right of a value that is not a string: the POSIX \<open>resolve\<close>
  signals the error exactly when none of these strings starts with \<open>/\<close>, and the Windows
  \<open>resolve\<close> exactly when \<open>win32_resolve_stops\<close> fails for them; otherwise the result is
  that of \<open>resolve\<close> on these strings alone, whatever stands to their left.
\<close>

theorem nonstring_argument_signals_iff_reached:
  assumes "\<not> isString v"
  shows "posix_join (xs @ v # ys) = Inl (InvalidArgument ''Arguments to path.join must be strings'')
   \<and> win32_join (xs @ v # ys) = Inl (InvalidArgument ''Arguments to path.join must be strings'')
   \<and> posix_resolve d (xs @ v # map JStr ss) =
       (if \<exists>s \<in> set ss. posix_isAbsolute s then posix_resolve d (map JStr ss)
        else Inl (InvalidArgument ''Arguments to path.resolve must be strings''))
   \<and> win32_resolve d (xs @ v # map JStr ss) =
       (if win32_resolve_stops ss then win32_resolve d (map JStr ss)
        else Inl (InvalidArgument ''Arguments to path.resolve must be strings''))
   \<and> (\<exists>r. posix_resolve d (map JStr ss) = Inr r)
   \<and> (\<exists>r. win32_resolve d (map JStr ss) = Inr r)"
proof -
  have 1: "posix_join (xs @ v # ys) = Inl (InvalidArgument ''Arguments to path.join must be strings'')"
    by (simp add: posix_join_def posix_join_loop_nonstring [OF assms])
  have 2: "win32_join (xs @ v # ys) = Inl (InvalidArgument ''Arguments to path.join must be strings'')"
    by (simp add: win32_join_def win32_join_filter_nonstring [OF assms])
  have e: "rev (xs @ v # map JStr ss) = map JStr (rev ss) @ v # rev xs"
    by (simp add: rev_map)
  have 3: "posix_resolve d (xs @ v # map JStr ss) =
       (if \<exists>s \<in> set ss. posix_isAbsolute s then posix_resolve d (map JStr ss)
        else Inl (InvalidArgument ''Arguments to path.resolve must be strings''))"
  proof (cases "\<exists>s \<in> set ss. posix_isAbsolute s")
    case True
    then have "\<exists>s \<in> set (rev ss). posix_isAbsolute s" by simp
    from posix_resolve_loop_stops [OF this, of "v # rev xs @ [JStr (cwd d)]" "[]" False
        "[JStr (cwd d)]"] True
    show ?thesis unfolding posix_resolve_def e by (simp add: rev_map)
  next
    case False
    then have rs: "\<forall>s \<in> set (rev ss). \<not> posix_isAbsolute s" by simp
    from posix_resolve_loop_relative [OF rs, of "v # rev xs @ [JStr (cwd d)]" "[]"]
    obtain rp' where "posix_resolve_loop (map JStr (rev ss) @ (v # rev xs @ [JStr (cwd d)])) [] False
        = posix_resolve_loop (v # rev xs @ [JStr (cwd d)]) rp' False"
      by blast
    with False assms show ?thesis unfolding posix_resolve_def e by simp
  qed
  let ?st0 = "\<lparr>resolvedDevice = [], resolvedTail = [], resolvedAbsolute = False,
              resolvedIsUnc = False\<rparr>"
  have i: "resolvedDevice ?st0 = [] \<or> \<not> resolvedAbsolute ?st0" by simp
  have 4: "win32_resolve d (xs @ v # map JStr ss) =
       (if win32_resolve_stops ss then win32_resolve d (map JStr ss)
        else Inl (InvalidArgument ''Arguments to path.resolve must be strings''))"
  proof (cases "win32_resolve_stops ss")
    case True
    then have "scan_stops (resolvedDevice ?st0) (resolvedAbsolute ?st0) (rev ss)"
      by (simp add: scan_stops_eq)
    with win32_resolve_loop_scan [OF i, of "rev ss" d "v # rev xs" "[]"]
    have "win32_resolve_loop d (map JStr (rev ss) @ v # rev xs) ?st0
        = win32_resolve_loop d (map JStr (rev ss)) ?st0"
      by simp
    with True show ?thesis unfolding win32_resolve_def e by (simp add: rev_map)
  next
    case False
    then have "\<not> scan_stops (resolvedDevice ?st0) (resolvedAbsolute ?st0) (rev ss)"
      by (simp add: scan_stops_eq)
    with win32_resolve_loop_scan [OF i, of "rev ss" d "rev xs" _ v]
    obtain st' where "win32_resolve_loop d (map JStr (rev ss) @ v # rev xs) ?st0
        = win32_resolve_loop d (v # rev xs) st'"
      by blast
    with False assms show ?thesis
      unfolding win32_resolve_def e by (simp add: win32_resolve_step_def)
  qed
  from 1 2 3 4 posix_resolve_strings [of d ss] win32_resolve_strings [of d ss]
  show ?thesis by blast
qed

theorem nonstring_argument_witness:
  "posix_join [JNull] = Inl (InvalidArgument ''Arguments to path.join must be strings'')
   \<and> win32_join [JNull] = Inl (InvalidArgument ''Arguments to path.join must be strings'')
   \<and> posix_resolve driver0 [JNum 42] = Inl (InvalidArgument ''Arguments to path.resolve must be strings'')
   \<and> win32_resolve driver0 [JNum 42] = Inl (InvalidArgument ''Arguments to path.resolve must be strings'')
   \<and> posix_resolve driver0 [JStr ''/a'', JNum 42, JStr ''b'']
        = Inl (InvalidArgument ''Arguments to path.resolve must be strings'')
   \<and> win32_resolve driver0 [JNum 42, JStr ''/a'']
        = Inl (InvalidArgument ''Arguments to path.resolve must be strings'')
   \<and> win32_resolve driver0 [JNum 42, JStr ([CHR ''C'', CHR '':'', bsl] @ ''a''), JStr ''D:b'']
        = Inl (InvalidArgument ''Arguments to path.resolve must be strings'')
   \<and> posix_resolve driver0 [JNull, JNum 42, JStr ''/a'', JStr ''b'']
        = posix_resolve driver0 [JStr ''/a'', JStr ''b'']
   \<and> win32_resolve driver0 [JNull, JNum 42, JStr ''C:a'', JStr ''/b'']
        = win32_resolve driver0 [JStr ''C:a'', JStr ''/b'']"
proof -
  have n: "\<not> isString JNull" "\<not> isString (JNum 42)" by (simp_all add: isString_def)
  have p: "\<not> (\<exists>s \<in> set []. posix_isAbsolute s)" "\<not> (\<exists>s \<in> set [''b'']. posix_isAbsolute s)"
    "\<exists>s \<in> set [''/a'', ''b'']. posix_isAbsolute s"
    by (simp_all add: posix_isAbsolute_def)
  have w: "\<not> win32_resolve_stops []" "\<not> win32_resolve_stops [''/a'']"
    "\<not> win32_resolve_stops [[CHR ''C'', CHR '':'', bsl] @ ''a'', ''D:b'']"
    "win32_resolve_stops [''C:a'', ''/b'']"
    by code_simp+
  from nonstring_argument_signals_iff_reached [OF n(1), of "[]" "[]" driver0 "[]"]
    nonstring_argument_signals_iff_reached [OF n(2), of "[]" "[]" driver0 "[]"]
    nonstring_argument_signals_iff_reached [OF n(2), of "[JStr ''/a'']" "[]" driver0 "[''b'']"]
    nonstring_argument_signals_iff_reached [OF n(2), of "[]" "[]" driver0 "[''/a'']"]
    nonstring_argument_signals_iff_reached [OF n(2), of "[]" "[]" driver0
      "[[CHR ''C'', CHR '':'', bsl] @ ''a'', ''D:b'']"]
    nonstring_argument_signals_iff_reached [OF n(2), of "[JNull]" "[]" driver0 "[''/a'', ''b'']"]
    nonstring_argument_signals_iff_reached [OF n(2), of "[JNull]" "[]" driver0 "[''C:a'', ''/b'']"]
    p w
  show ?thesis by simp
qed

text \<open>
  Claim C7 as stated fails: the scan of the POSIX \<open>resolve\<close> stops at \<open>/a\<close>, that of the
  Windows \<open>resolve\<close> at \<open>C:\a\<close>, and neither examines the number to its left.
\<close>

theorem resolve_skips_unreached_nonstring:
  "posix_resolve driver0 [JNum 42, JStr ''/a''] = Inr ''/a''
   \<and> win32_resolve driver0 [JNum 42, JStr ([CHR ''C'', CHR '':'', bsl] @ ''a'')]
       = Inr ([CHR ''C'', CHR '':'', bsl] @ ''a'')"
  by code_simp

section \<open>\<open>normalize\<close> applied twice\<close>

text \<open>Segments as the normalizer leaves them: first the \<open>..\<close>, then names.\<close>

definition is_name :: "string \<Rightarrow> bool" where
  "is_name y \<longleftrightarrow> y \<noteq> [] \<and> y \<noteq> ''.'' \<and> y \<noteq> ''..''"

definition settled :: "bool \<Rightarrow> string list \<Rightarrow> bool" where
  "settled a xs \<longleftrightarrow>
     (\<exists>n ys. xs = replicate n ''..'' @ ys \<and> (\<forall>y \<in> set ys. is_name y) \<and> (0 < n \<longrightarrow> a))"

lemma settled_Nil [simp]: "settled a []"
  unfolding settled_def by (intro exI [of _ 0] exI [of _ "[]"]) simp









lemma settled_nonempty: "settled a xs \<Longrightarrow> x \<in> set xs \<Longrightarrow> x \<noteq> []"
  unfolding settled_def is_name_def by auto


































end
